theory Spec2Isabelle
  imports Complex_Main "HOL-Library.Word" "HOL-Library.Multiset"
begin

unbundle bit_operations_syntax

section \<open>Failures\<close>

text \<open>
  The mutator has no error returns: what can go wrong is a failed \<^verbatim>\<open>assert\<close> (the
  text of the assertion is kept) or an operation the language leaves undefined
  (division by zero, a write outside a buffer).  Both are values of the model.
\<close>

datatype error = AssertionFailed string | UndefinedBehaviour string

section \<open>Random source\<close>

text \<open>
  \<^verbatim>\<open>ProtobufMutator::RandomEngine\<close> is a seeded generator.  Its state is modelled by the
  sequence of raw outputs it is still going to deliver; an engine whose list is used up
  delivers zeros.  \<^verbatim>\<open>std::uniform_int_distribution<size_t>(a, b)(*random)\<close> consumes one raw
  output and maps it into the closed range from \<open>a\<close> to \<open>b\<close>.
\<close>

type_synonym RandomEngine = "nat list"

definition uniform_int_distribution :: "nat \<Rightarrow> nat \<Rightarrow> RandomEngine \<Rightarrow> nat \<times> RandomEngine" where
  "uniform_int_distribution a b random =
     (case random of
        [] \<Rightarrow> (a, [])
      | r # rest \<Rightarrow> (a + r mod (b - a + 1), rest))"

text \<open>\<^verbatim>\<open>size_t\<close> is an unsigned 64-bit integer: arithmetic on it wraps modulo \<open>2 ^ 64\<close>.\<close>

definition size_t_wrap :: "nat \<Rightarrow> nat" where
  "size_t_wrap n = n mod 2 ^ 64"

definition size_t_sub :: "nat \<Rightarrow> nat \<Rightarrow> nat" where
  "size_t_sub a b = (a + 2 ^ 64 - b) mod 2 ^ 64"

text \<open>
  \<^verbatim>\<open>
  size_t GetRandomIndex(ProtobufMutator::RandomEngine* random, size_t count) {
    assert(count > 0);
    if (count == 1) return 0;
    return std::uniform_int_distribution<size_t>(0, count - 1)(*random);
  }
  \<close>
\<close>

definition GetRandomIndex :: "RandomEngine \<Rightarrow> nat \<Rightarrow> error + (nat \<times> RandomEngine)" where
  "GetRandomIndex random cnt =
     (if \<not> cnt > 0 then Inl (AssertionFailed ''count > 0'')
      else if cnt = 1 then Inr (0, random)
      else Inr (uniform_int_distribution 0 (cnt - 1) random))"

text \<open>\<^verbatim>\<open>GetRandomBool(random, n = 2)\<close>: true with probability about 1-of-n.\<close>

definition GetRandomBool :: "RandomEngine \<Rightarrow> nat \<Rightarrow> error + (bool \<times> RandomEngine)" where
  "GetRandomBool random n =
     (case GetRandomIndex random n of
        Inl e \<Rightarrow> Inl e
      | Inr (i, random') \<Rightarrow> Inr (i = 0, random'))"

section \<open>Bit flips\<close>

text \<open>
  \<^verbatim>\<open>
  void FlipBit(size_t size, uint8_t* bytes, ProtobufMutator::RandomEngine* random) {
    size_t bit = std::uniform_int_distribution<size_t>(0, size * 8 - 1)(*random);
    bytes[bit / 8] ^= (1u << (bit % 8));
  }
  \<close>
  The buffer is the list of its bytes; a write outside it is undefined behaviour.
\<close>

type_synonym byte = "8 word"

definition FlipBit :: "nat \<Rightarrow> byte list \<Rightarrow> RandomEngine \<Rightarrow> error + (byte list \<times> RandomEngine)" where
  "FlipBit sz bytes random =
     (case uniform_int_distribution 0 (size_t_sub (size_t_wrap (sz * 8)) 1) random of
        (bit_no, random') \<Rightarrow>
          if bit_no div 8 < length bytes
          then Inr (bytes[bit_no div 8 := (bytes ! (bit_no div 8)) XOR push_bit (bit_no mod 8) 1],
                    random')
          else Inl (UndefinedBehaviour ''write outside the buffer''))"

text \<open>
  The object representation of an integer (or of a float, taken as its bit pattern):
  \<open>sizeof\<close> bytes, least significant byte first.
\<close>

definition sizeof :: "'a::len word \<Rightarrow> nat" where
  "sizeof w = LENGTH('a) div 8"

definition object_bytes :: "'a::len word \<Rightarrow> byte list" where
  "object_bytes w = map (\<lambda>i. ucast (drop_bit (8 * i) w)) [0..<LENGTH('a) div 8]"

definition object_value :: "byte list \<Rightarrow> 'a::len word" where
  "object_value bs = word_of_int (horner_sum uint (2 ^ 8) bs)"

text \<open>
  \<^verbatim>\<open>
  template <class T>
  T FlipBit(T value, ProtobufMutator::RandomEngine* random) {
    FlipBit(sizeof(value), reinterpret_cast<uint8_t*>(&value), random);
    return value;
  }
  \<close>
\<close>

definition FlipBit_value :: "'a::len word \<Rightarrow> RandomEngine \<Rightarrow> error + ('a word \<times> RandomEngine)" where
  "FlipBit_value v random =
     (case FlipBit (sizeof v) (object_bytes v) random of
        Inl e \<Rightarrow> Inl e
      | Inr (bytes, random') \<Rightarrow> Inr (object_value bytes, random'))"

section \<open>Scalar mutators\<close>

text \<open>
  \<^verbatim>\<open>int32_t\<close> and \<^verbatim>\<open>uint32_t\<close> are 32-bit words, \<^verbatim>\<open>int64_t\<close> and \<^verbatim>\<open>uint64_t\<close> 64-bit words;
  \<^verbatim>\<open>float\<close> and \<^verbatim>\<open>double\<close> values are carried as their 32- and 64-bit patterns, which is
  all the mutator looks at.
\<close>

definition MutateInt32 :: "32 word \<Rightarrow> RandomEngine \<Rightarrow> error + (32 word \<times> RandomEngine)" where
  "MutateInt32 v random = FlipBit_value v random"

definition MutateInt64 :: "64 word \<Rightarrow> RandomEngine \<Rightarrow> error + (64 word \<times> RandomEngine)" where
  "MutateInt64 v random = FlipBit_value v random"

definition MutateUInt32 :: "32 word \<Rightarrow> RandomEngine \<Rightarrow> error + (32 word \<times> RandomEngine)" where
  "MutateUInt32 v random = FlipBit_value v random"

definition MutateUInt64 :: "64 word \<Rightarrow> RandomEngine \<Rightarrow> error + (64 word \<times> RandomEngine)" where
  "MutateUInt64 v random = FlipBit_value v random"

definition MutateFloat :: "32 word \<Rightarrow> RandomEngine \<Rightarrow> error + (32 word \<times> RandomEngine)" where
  "MutateFloat v random = FlipBit_value v random"

definition MutateDouble :: "64 word \<Rightarrow> RandomEngine \<Rightarrow> error + (64 word \<times> RandomEngine)" where
  "MutateDouble v random = FlipBit_value v random"

definition MutateBool :: "bool \<Rightarrow> bool" where
  "MutateBool v = (\<not> v)"

text \<open>
  \<^verbatim>\<open>
  size_t ProtobufMutator::MutateEnum(size_t index, size_t item_count) {
    return (index + 1 + GetRandomIndex(&random_, item_count - 1)) % item_count;
  }
  \<close>
  All operands are \<^verbatim>\<open>size_t\<close>: the subtraction and the sum wrap, and the remainder by
  zero is undefined.
\<close>

definition MutateEnum :: "nat \<Rightarrow> nat \<Rightarrow> RandomEngine \<Rightarrow> error + (nat \<times> RandomEngine)" where
  "MutateEnum index item_count random =
     (case GetRandomIndex random (size_t_sub item_count 1) of
        Inl e \<Rightarrow> Inl e
      | Inr (r, random') \<Rightarrow>
          if item_count = 0 then Inl (UndefinedBehaviour ''remainder by zero'')
          else Inr (size_t_wrap (index + 1 + r) mod item_count, random'))"

text \<open>
  \<^verbatim>\<open>
  std::string ProtobufMutator::MutateString(const std::string& value,
                                            size_t size_increase_hint) {
    std::string result = value;
    while (!result.empty() && GetRandomBool(&random_)) {
      result.erase(GetRandomIndex(&random_, result.size()), 1);
    }
    while (result.size() < size_increase_hint && GetRandomBool(&random_)) {
      size_t index = GetRandomIndex(&random_, result.size() + 1);
      result.insert(result.begin() + index, GetRandomIndex(&random_, 1 << 8));
    }
    if (!result.empty())
      FlipBit(result.size(), reinterpret_cast<uint8_t*>(&result[0]), &random_);
    return result;
  }
  \<close>
  A \<^verbatim>\<open>std::string\<close> is the list of its bytes.  Each loop is a recursive function: the first
  one shortens the string at every iteration, the second one lengthens it towards the hint.
\<close>

function MutateString_shrink :: "byte list \<Rightarrow> RandomEngine \<Rightarrow> error + (byte list \<times> RandomEngine)" where
  "MutateString_shrink result random =
     (if result = [] then Inr (result, random)
      else case GetRandomBool random 2 of
        Inl e \<Rightarrow> Inl e
      | Inr (heads, random1) \<Rightarrow>
          if \<not> heads then Inr (result, random1)
          else (case GetRandomIndex random1 (length result) of
            Inl e \<Rightarrow> Inl e
          | Inr (index, random2) \<Rightarrow>
              if index < length result
              then MutateString_shrink (take index result @ drop (Suc index) result) random2
              else Inl (UndefinedBehaviour ''erase outside the string'')))"
  by pat_completeness auto
termination
  by (relation "measure (\<lambda>(result, random). length result)") auto

function MutateString_grow :: "byte list \<Rightarrow> nat \<Rightarrow> RandomEngine \<Rightarrow> error + (byte list \<times> RandomEngine)" where
  "MutateString_grow result size_increase_hint random =
     (if \<not> length result < size_increase_hint then Inr (result, random)
      else case GetRandomBool random 2 of
        Inl e \<Rightarrow> Inl e
      | Inr (heads, random1) \<Rightarrow>
          if \<not> heads then Inr (result, random1)
          else (case GetRandomIndex random1 (length result + 1) of
            Inl e \<Rightarrow> Inl e
          | Inr (index, random2) \<Rightarrow>
              (case GetRandomIndex random2 (push_bit 8 1) of
                 Inl e \<Rightarrow> Inl e
               | Inr (c, random3) \<Rightarrow>
                   if index \<le> length result
                   then MutateString_grow (take index result @ [of_nat c] @ drop index result)
                          size_increase_hint random3
                   else Inl (UndefinedBehaviour ''insert outside the string''))))"
  by pat_completeness auto
termination
  by (relation "measure (\<lambda>(result, size_increase_hint, random). size_increase_hint - length result)")
     auto

definition MutateString :: "byte list \<Rightarrow> nat \<Rightarrow> RandomEngine \<Rightarrow> error + (byte list \<times> RandomEngine)" where
  "MutateString v size_increase_hint random =
     (case MutateString_shrink v random of
        Inl e \<Rightarrow> Inl e
      | Inr (result1, random1) \<Rightarrow>
          (case MutateString_grow result1 size_increase_hint random1 of
             Inl e \<Rightarrow> Inl e
           | Inr (result2, random2) \<Rightarrow>
               if result2 \<noteq> [] then FlipBit (length result2) result2 random2
               else Inr (result2, random2)))"

section \<open>Sampler weights\<close>

definition kMaxInitializeDepth :: nat where
  "kMaxInitializeDepth = 32"

definition kDeletionThreshold :: nat where
  "kDeletionThreshold = 128"

definition kMutateWeight :: nat where
  "kMutateWeight = 1000000"

text \<open>
  The constructor of \<^verbatim>\<open>MutationSampler\<close> starts from
  \<^verbatim>\<open>add_weight_ = delete_weight_ = kMutateWeight / 10\<close> (both \<^verbatim>\<open>uint64_t\<close>) and runs
  \<^verbatim>\<open>
    if (size_increase_hint < kDeletionThreshold) {
      float adjustment = 0.5 * size_increase_hint / kDeletionThreshold;
      add_weight_ *= adjustment;
      delete_weight_ *= 1 - adjustment;
    }
  \<close>
  The compound assignment multiplies in floating point and converts the product back to
  \<^verbatim>\<open>uint64_t\<close>, which drops the fraction.  The floating-point values are modelled by the
  rationals they denote: below the threshold every operand and every product is a multiple
  of \<open>1 / 256\<close> with fewer than 24 significant bits (lemma \<open>weights_exact_in_binary32\<close>), so
  no operation rounds.
\<close>

definition adjustment :: "nat \<Rightarrow> rat" where
  "adjustment size_increase_hint =
     (1 / 2) * of_nat size_increase_hint / of_nat kDeletionThreshold"

definition uint64_times_float :: "nat \<Rightarrow> rat \<Rightarrow> nat" where
  "uint64_times_float w f = nat \<lfloor>of_nat w * f\<rfloor>"

definition initial_add_weight :: "nat \<Rightarrow> nat" where
  "initial_add_weight size_increase_hint =
     (if size_increase_hint < kDeletionThreshold
      then uint64_times_float (kMutateWeight div 10) (adjustment size_increase_hint)
      else kMutateWeight div 10)"

definition initial_delete_weight :: "nat \<Rightarrow> nat" where
  "initial_delete_weight size_increase_hint =
     (if size_increase_hint < kDeletionThreshold
      then uint64_times_float (kMutateWeight div 10) (1 - adjustment size_increase_hint)
      else kMutateWeight div 10)"

text \<open>The non-negative rationals below \<open>2 ^ 24\<close> that a binary32 \<^verbatim>\<open>float\<close> holds exactly.\<close>

definition binary32 :: "rat \<Rightarrow> bool" where
  "binary32 q = (\<exists>m e :: nat. m < 2 ^ 24 \<and> e \<le> 149 \<and> q = of_nat m / 2 ^ e)"

section \<open>Schema and messages\<close>

text \<open>
  The schema and reflection facility is the protobuf library, outside the repository.  It is
  modelled by the data the mutator reads through it.  A field descriptor carries its C++
  type, its label, the oneof it belongs to and its position there, and the enum or message
  type it refers to (message types are named, so that a schema may refer to itself).
\<close>

datatype CppType =
    CPPTYPE_INT32 | CPPTYPE_INT64 | CPPTYPE_UINT32 | CPPTYPE_UINT64 | CPPTYPE_DOUBLE
  | CPPTYPE_FLOAT | CPPTYPE_BOOL | CPPTYPE_ENUM | CPPTYPE_STRING | CPPTYPE_MESSAGE

datatype Label = LABEL_OPTIONAL | LABEL_REQUIRED | LABEL_REPEATED

record EnumDescriptor =
  enum_name :: nat
  value_count :: nat

record OneofDescriptor =
  oneof_name :: nat
  oneof_fields :: "nat list"

record FieldDescriptor =
  cpp_type :: CppType
  label :: Label
  oneof_decl :: "OneofDescriptor option"
  index_in_oneof :: nat
  enum_type :: "EnumDescriptor option"
  message_type :: "nat option"

definition is_repeated :: "FieldDescriptor \<Rightarrow> bool" where
  "is_repeated f = (label f = LABEL_REPEATED)"

definition is_required :: "FieldDescriptor \<Rightarrow> bool" where
  "is_required f = (label f = LABEL_REQUIRED)"

text \<open>Protobuf admits only optional fields in a oneof.\<close>

definition containing_oneof :: "FieldDescriptor \<Rightarrow> OneofDescriptor option" where
  "containing_oneof f = (if label f = LABEL_OPTIONAL then oneof_decl f else None)"

text \<open>
  A message is the name of its type and, for each field of its descriptor in order, the
  descriptor and the values stored: none or one for a singular field, any number for a
  repeated one.  Integers are words, floats their bit patterns, an enum value the index of
  the value in its enum, a string its bytes.
\<close>

datatype Value =
    VInt32 "32 word" | VInt64 "64 word" | VUInt32 "32 word" | VUInt64 "64 word"
  | VDouble "64 word" | VFloat "32 word" | VBool bool | VEnum nat | VString "byte list"
  | VMessage Message
and Message = Message (type_name: nat) (entries: "(FieldDescriptor \<times> Value list) list")

type_synonym Schema = "nat \<Rightarrow> FieldDescriptor list"

definition GetDescriptor :: "Message \<Rightarrow> nat \<times> FieldDescriptor list" where
  "GetDescriptor m = (type_name m, map fst (entries m))"

definition field_count :: "Message \<Rightarrow> nat" where
  "field_count m = length (entries m)"

definition field :: "Message \<Rightarrow> nat \<Rightarrow> FieldDescriptor" where
  "field m i = fst (entries m ! i)"

definition field_values :: "Message \<Rightarrow> nat \<Rightarrow> Value list" where
  "field_values m i = snd (entries m ! i)"

definition HasField :: "Message \<Rightarrow> nat \<Rightarrow> bool" where
  "HasField m i = (field_values m i \<noteq> [])"

definition FieldSize :: "Message \<Rightarrow> nat \<Rightarrow> nat" where
  "FieldSize m i = length (field_values m i)"

definition GetOneofFieldDescriptor :: "Message \<Rightarrow> OneofDescriptor \<Rightarrow> nat option" where
  "GetOneofFieldDescriptor m oneof =
     find (\<lambda>i. i < field_count m \<and> containing_oneof (field m i) = Some oneof \<and> HasField m i)
       (oneof_fields oneof)"

text \<open>The prototype of a message type: every field unset.\<close>

definition New :: "Schema \<Rightarrow> nat \<Rightarrow> Message" where
  "New schema t = Message t (map (\<lambda>f. (f, [])) (schema t))"

text \<open>
  \<^verbatim>\<open>Message::IsInitialized\<close>: every required field is set and every sub-message present is
  initialized.
\<close>

fun IsInitialized :: "Message \<Rightarrow> bool"
  and IsInitialized_fields :: "(FieldDescriptor \<times> Value list) list \<Rightarrow> bool"
  and IsInitialized_elements :: "Value list \<Rightarrow> bool" where
  "IsInitialized (Message t es) = IsInitialized_fields es"
| "IsInitialized_fields [] = True"
| "IsInitialized_fields ((f, vs) # rest) =
     ((if is_required f then vs \<noteq> [] else True)
      \<and> IsInitialized_elements vs \<and> IsInitialized_fields rest)"
| "IsInitialized_elements [] = True"
| "IsInitialized_elements (v # rest) =
     ((case v of VMessage m \<Rightarrow> IsInitialized m | _ \<Rightarrow> True) \<and> IsInitialized_elements rest)"

section \<open>Field handles\<close>

text \<open>
  \<^verbatim>\<open>src/field_instance.h\<close> is not among the sources.  A handle is a message pointer, a field
  descriptor and an index.  The pointer is modelled by the path from the root message to the
  message pointed to: one step (position of the field, index of the element) per level.
  The handle also records the position of its field in that message.
\<close>

type_synonym MessagePath = "(nat \<times> nat) list"

record FieldInstance =
  fi_message :: MessagePath
  fi_descriptor :: FieldDescriptor
  fi_position :: nat
  fi_index :: "nat option"

definition FieldInstance_of :: "MessagePath \<Rightarrow> Message \<Rightarrow> nat \<Rightarrow> nat option \<Rightarrow> FieldInstance" where
  "FieldInstance_of p m i idx =
     \<lparr>fi_message = p, fi_descriptor = field m i, fi_position = i, fi_index = idx\<rparr>"

definition set_values :: "Message \<Rightarrow> nat \<Rightarrow> Value list \<Rightarrow> Message" where
  "set_values m i vs = Message (type_name m) ((entries m)[i := (field m i, vs)])"

definition clear_siblings :: "Message \<Rightarrow> nat \<Rightarrow> Message" where
  "clear_siblings m i =
     (case containing_oneof (field m i) of
        None \<Rightarrow> m
      | Some oneof \<Rightarrow>
          Message (type_name m)
            (map (\<lambda>(j, (f, vs)). if j \<noteq> i \<and> containing_oneof f = Some oneof then (f, []) else (f, vs))
               (enumerate 0 (entries m))))"

text \<open>
  Modelled from the spec: \<^verbatim>\<open>FieldInstance::GetDefault\<close> (src/field_instance.h is missing),
  ``populates out with the schema default for the field's primitive type''.
\<close>

definition GetDefault :: "Schema \<Rightarrow> FieldDescriptor \<Rightarrow> error + Value" where
  "GetDefault schema f =
     (case cpp_type f of
        CPPTYPE_INT32 \<Rightarrow> Inr (VInt32 0)
      | CPPTYPE_INT64 \<Rightarrow> Inr (VInt64 0)
      | CPPTYPE_UINT32 \<Rightarrow> Inr (VUInt32 0)
      | CPPTYPE_UINT64 \<Rightarrow> Inr (VUInt64 0)
      | CPPTYPE_DOUBLE \<Rightarrow> Inr (VDouble 0)
      | CPPTYPE_FLOAT \<Rightarrow> Inr (VFloat 0)
      | CPPTYPE_BOOL \<Rightarrow> Inr (VBool False)
      | CPPTYPE_ENUM \<Rightarrow> Inr (VEnum 0)
      | CPPTYPE_STRING \<Rightarrow> Inr (VString [])
      | CPPTYPE_MESSAGE \<Rightarrow>
          (case message_type f of
             None \<Rightarrow> Inl (UndefinedBehaviour ''message field without a message type'')
           | Some t \<Rightarrow> Inr (VMessage (New schema t))))"

text \<open>
  Modelled from the spec: \<^verbatim>\<open>FieldInstance::Load\<close>, ``reads the current value (for
  scalar/enum/string) or a reference to the sub-message''.
\<close>

definition Load :: "Message \<Rightarrow> FieldInstance \<Rightarrow> error + Value" where
  "Load m fi =
     (let vs = field_values m (fi_position fi);
          j = (case fi_index fi of None \<Rightarrow> 0 | Some j \<Rightarrow> j)
      in if fi_position fi < field_count m \<and> j < length vs then Inr (vs ! j)
         else Inl (UndefinedBehaviour ''load of an absent value''))"

text \<open>
  Modelled from the spec: \<^verbatim>\<open>FieldInstance::Store\<close>, ``writes a new value into an existing
  field slot''.  Setting a member of a oneof clears the other members.
\<close>

definition Store :: "Message \<Rightarrow> FieldInstance \<Rightarrow> Value \<Rightarrow> error + Message" where
  "Store m fi v =
     (let i = fi_position fi; vs = field_values m i
      in if \<not> i < field_count m then Inl (UndefinedBehaviour ''no such field'')
         else if is_repeated (fi_descriptor fi)
         then (case fi_index fi of
                 None \<Rightarrow> Inl (UndefinedBehaviour ''repeated field without index'')
               | Some j \<Rightarrow>
                   if j < length vs then Inr (set_values m i (vs[j := v]))
                   else Inl (UndefinedBehaviour ''store outside the repeated field''))
         else Inr (set_values (clear_siblings m i) i [v]))"

text \<open>
  Modelled from the spec: \<^verbatim>\<open>FieldInstance::Create\<close>, ``for repeated fields, inserts at the
  handle's index (shifting the tail); for optional fields, sets the field; for choice-group
  members, sets this member and clears siblings''.
\<close>

definition Create :: "Message \<Rightarrow> FieldInstance \<Rightarrow> Value \<Rightarrow> error + Message" where
  "Create m fi v =
     (let i = fi_position fi; vs = field_values m i
      in if \<not> i < field_count m then Inl (UndefinedBehaviour ''no such field'')
         else if is_repeated (fi_descriptor fi)
         then (case fi_index fi of
                 None \<Rightarrow> Inl (UndefinedBehaviour ''repeated field without index'')
               | Some j \<Rightarrow>
                   if j \<le> length vs then Inr (set_values m i (take j vs @ [v] @ drop j vs))
                   else Inl (UndefinedBehaviour ''insert outside the repeated field''))
         else Inr (set_values (clear_siblings m i) i [v]))"

text \<open>
  Modelled from the spec: \<^verbatim>\<open>FieldInstance::Delete\<close>, ``for repeated fields, removes the
  element at the handle's index; otherwise clears presence''.
\<close>

definition Delete :: "Message \<Rightarrow> FieldInstance \<Rightarrow> error + Message" where
  "Delete m fi =
     (let i = fi_position fi; vs = field_values m i
      in if \<not> i < field_count m then Inl (UndefinedBehaviour ''no such field'')
         else if is_repeated (fi_descriptor fi)
         then (case fi_index fi of
                 None \<Rightarrow> Inl (UndefinedBehaviour ''repeated field without index'')
               | Some j \<Rightarrow>
                   if j < length vs then Inr (set_values m i (take j vs @ drop (Suc j) vs))
                   else Inl (UndefinedBehaviour ''delete outside the repeated field''))
         else Inr (set_values m i []))"

text \<open>The message a path leads to, and the replacement of that message in the tree.\<close>

fun message_at :: "Message \<Rightarrow> MessagePath \<Rightarrow> error + Message" where
  "message_at m [] = Inr m"
| "message_at m ((i, j) # rest) =
     (if i < field_count m \<and> j < length (field_values m i)
      then (case field_values m i ! j of
              VMessage sub \<Rightarrow> message_at sub rest
            | _ \<Rightarrow> Inl (UndefinedBehaviour ''not a message''))
      else Inl (UndefinedBehaviour ''dangling message pointer''))"

fun update_at :: "Message \<Rightarrow> MessagePath \<Rightarrow> (Message \<Rightarrow> error + Message \<times> 'x)
                    \<Rightarrow> error + Message \<times> 'x" where
  "update_at m [] f = f m"
| "update_at m ((i, j) # rest) f =
     (if i < field_count m \<and> j < length (field_values m i)
      then (case field_values m i ! j of
              VMessage sub \<Rightarrow>
                (case update_at sub rest f of
                   Inl e \<Rightarrow> Inl e
                 | Inr (sub', x) \<Rightarrow>
                     Inr (set_values m i ((field_values m i)[j := VMessage sub']), x))
            | _ \<Rightarrow> Inl (UndefinedBehaviour ''not a message''))
      else Inl (UndefinedBehaviour ''dangling message pointer''))"

section \<open>Weighted reservoir sampler\<close>

text \<open>
  Modelled from the spec: \<^verbatim>\<open>WeightedReservoirSampler\<close> (src/weighted_reservoir_sampler.h is
  missing).  ``Items with \<open>w_i = 0\<close> are ignored.  Algorithm: maintain running total \<open>W\<close>; on
  each item draw \<open>u \<in> [0, W + w_i)\<close>; replace the stored value with \<open>v_i\<close> iff \<open>u < w_i\<close>;
  set \<open>W \<leftarrow> W + w_i\<close>.  Exposes \<open>try(w, v)\<close>, \<open>selected()\<close>, \<open>is_empty()\<close>.''  The
  sampler is empty as long as it has stored no value.  The field \<open>offered\<close> is not part of
  the sampler: it records the arguments of the calls of \<open>Try\<close> in order, to state what a
  traversal offers; nothing reads it.
\<close>

record 'a WeightedReservoirSampler =
  total_weight :: nat
  selected :: "'a option"
  offered :: "(nat \<times> 'a) list"

definition WeightedReservoirSampler_new :: "'a WeightedReservoirSampler" where
  "WeightedReservoirSampler_new = \<lparr>total_weight = 0, selected = None, offered = []\<rparr>"

definition Try :: "nat \<Rightarrow> 'a \<Rightarrow> 'a WeightedReservoirSampler \<times> RandomEngine
                     \<Rightarrow> 'a WeightedReservoirSampler \<times> RandomEngine" where
  "Try w v = (\<lambda>(s, random).
     if w = 0 then (s\<lparr>offered := offered s @ [(w, v)]\<rparr>, random)
     else (case uniform_int_distribution 0 (total_weight s + w - 1) random of
             (u, random') \<Rightarrow>
               (\<lparr>total_weight = total_weight s + w,
                 selected = (if u < w then Some v else selected s),
                 offered = offered s @ [(w, v)]\<rparr>, random')))"

definition IsEmpty :: "'a WeightedReservoirSampler \<Rightarrow> bool" where
  "IsEmpty s = (selected s = None)"

section \<open>Mutation sampler\<close>

datatype Mutation =
    Mutation_None
  | Mutation_Add     \<comment> \<open>Adds new field with default value.\<close>
  | Mutation_Mutate  \<comment> \<open>Mutates field contents.\<close>
  | Mutation_Delete  \<comment> \<open>Deletes field.\<close>
  | Mutation_Copy    \<comment> \<open>Copy values copied from another field.\<close>

record Result =
  r_field :: FieldInstance
  r_mutation :: Mutation

record MutationSampler =
  ms_keep_initialized :: bool
  ms_add_weight :: nat
  ms_delete_weight :: nat
  ms_random :: RandomEngine
  ms_sampler :: "Result WeightedReservoirSampler"

definition sampler_Try :: "nat \<Rightarrow> FieldInstance \<Rightarrow> Mutation \<Rightarrow> MutationSampler \<Rightarrow> MutationSampler" where
  "sampler_Try w fi mu ms =
     (case Try w \<lparr>r_field = fi, r_mutation = mu\<rparr> (ms_sampler ms, ms_random ms) of
        (s, random') \<Rightarrow> ms\<lparr>ms_random := random', ms_sampler := s\<rparr>)"

definition GetCopyWeight :: "MutationSampler \<Rightarrow> FieldDescriptor \<Rightarrow> nat" where
  "GetCopyWeight ms f = (if cpp_type f = CPPTYPE_MESSAGE then ms_add_weight ms else kMutateWeight)"

definition Sample_candidates :: "MessagePath \<Rightarrow> Message \<Rightarrow> nat \<Rightarrow> MutationSampler
                                   \<Rightarrow> error + MutationSampler" where
  "Sample_candidates p message i ms =
     (let f = field message i in
      case containing_oneof f of
        Some oneof \<Rightarrow>
          if index_in_oneof f = 0
          then (case GetRandomIndex (ms_random ms) (length (oneof_fields oneof)) of
                  Inl e \<Rightarrow> Inl e
                | Inr (k, random1) \<Rightarrow>
                    if \<not> oneof_fields oneof ! k < field_count message
                    then Inl (UndefinedBehaviour ''oneof member outside the message'')
                    else
                      let ms1 = sampler_Try (ms_add_weight ms)
                                  (FieldInstance_of p message (oneof_fields oneof ! k) None)
                                  Mutation_Add (ms\<lparr>ms_random := random1\<rparr>)
                      in (case GetOneofFieldDescriptor message oneof of
                            None \<Rightarrow> Inr ms1
                          | Some g \<Rightarrow>
                              let ms2 = (if cpp_type (field message g) \<noteq> CPPTYPE_MESSAGE
                                         then sampler_Try kMutateWeight
                                                (FieldInstance_of p message g None) Mutation_Mutate ms1
                                         else ms1);
                                  ms3 = sampler_Try (ms_delete_weight ms)
                                          (FieldInstance_of p message g None) Mutation_Delete ms2;
                                  ms4 = sampler_Try (GetCopyWeight ms (field message g))
                                          (FieldInstance_of p message g None) Mutation_Copy ms3
                              in Inr ms4))
          else Inr ms
      | None \<Rightarrow>
          if is_repeated f
          then (let field_size = FieldSize message i in
                case GetRandomIndex (ms_random ms) (field_size + 1) of
                  Inl e \<Rightarrow> Inl e
                | Inr (k, random1) \<Rightarrow>
                    let ms1 = sampler_Try (ms_add_weight ms) (FieldInstance_of p message i (Some k))
                                Mutation_Add (ms\<lparr>ms_random := random1\<rparr>)
                    in if field_size \<noteq> 0
                       then (case GetRandomIndex (ms_random ms1) field_size of
                               Inl e \<Rightarrow> Inl e
                             | Inr (random_index, random2) \<Rightarrow>
                                 let ms2 = (if cpp_type f \<noteq> CPPTYPE_MESSAGE
                                            then sampler_Try kMutateWeight
                                                   (FieldInstance_of p message i (Some random_index))
                                                   Mutation_Mutate (ms1\<lparr>ms_random := random2\<rparr>)
                                            else ms1\<lparr>ms_random := random2\<rparr>);
                                     ms3 = sampler_Try (ms_delete_weight ms)
                                             (FieldInstance_of p message i (Some random_index))
                                             Mutation_Delete ms2;
                                     ms4 = sampler_Try (GetCopyWeight ms f)
                                             (FieldInstance_of p message i (Some random_index))
                                             Mutation_Copy ms3
                                 in Inr ms4)
                       else Inr ms1)
          else if HasField message i
          then (let ms1 = (if cpp_type f \<noteq> CPPTYPE_MESSAGE
                           then sampler_Try kMutateWeight (FieldInstance_of p message i None)
                                  Mutation_Mutate ms
                           else ms);
                    ms2 = (if \<not> is_required f \<or> \<not> ms_keep_initialized ms
                           then sampler_Try (ms_delete_weight ms) (FieldInstance_of p message i None)
                                  Mutation_Delete ms1
                           else ms1);
                    ms3 = sampler_Try (GetCopyWeight ms f) (FieldInstance_of p message i None)
                            Mutation_Copy ms2
                in Inr ms3)
          else Inr (sampler_Try (ms_add_weight ms) (FieldInstance_of p message i None)
                      Mutation_Add ms))"

fun Sample :: "MessagePath \<Rightarrow> Message \<Rightarrow> MutationSampler \<Rightarrow> error + MutationSampler"
  and Sample_fields :: "MessagePath \<Rightarrow> Message \<Rightarrow> nat \<Rightarrow> (FieldDescriptor \<times> Value list) list
                          \<Rightarrow> MutationSampler \<Rightarrow> error + MutationSampler"
  and Sample_elements :: "MessagePath \<Rightarrow> nat \<Rightarrow> nat \<Rightarrow> Value list
                          \<Rightarrow> MutationSampler \<Rightarrow> error + MutationSampler" where
  "Sample p (Message t es) ms = Sample_fields p (Message t es) 0 es ms"
| "Sample_fields p message i [] ms = Inr ms"
| "Sample_fields p message i ((f, vs) # rest) ms =
     (case Sample_candidates p message i ms of
        Inl e \<Rightarrow> Inl e
      | Inr ms1 \<Rightarrow>
          (case (if cpp_type f = CPPTYPE_MESSAGE
                 then (if is_repeated f then Sample_elements p i 0 vs ms1
                       else (case vs of
                               [] \<Rightarrow> Inr ms1
                             | v # _ \<Rightarrow> Sample_elements p i 0 [v] ms1))
                 else Inr ms1) of
             Inl e \<Rightarrow> Inl e
           | Inr ms2 \<Rightarrow> Sample_fields p message (Suc i) rest ms2))"
| "Sample_elements p i j [] ms = Inr ms"
| "Sample_elements p i j (v # rest) ms =
     (case v of
        VMessage sub \<Rightarrow>
          (case Sample (p @ [(i, j)]) sub ms of
             Inl e \<Rightarrow> Inl e
           | Inr ms1 \<Rightarrow> Sample_elements p i (Suc j) rest ms1)
      | _ \<Rightarrow> Inl (UndefinedBehaviour ''not a message''))"

definition mutation :: "MutationSampler \<Rightarrow> Mutation" where
  "mutation ms = (case selected (ms_sampler ms) of None \<Rightarrow> Mutation_None | Some r \<Rightarrow> r_mutation r)"

definition MutationSampler_new :: "bool \<Rightarrow> nat \<Rightarrow> RandomEngine \<Rightarrow> Message \<Rightarrow> error + MutationSampler" where
  "MutationSampler_new keep_initialized size_increase_hint random message =
     (case Sample [] message
             \<lparr>ms_keep_initialized = keep_initialized,
              ms_add_weight = initial_add_weight size_increase_hint,
              ms_delete_weight = initial_delete_weight size_increase_hint,
              ms_random = random,
              ms_sampler = WeightedReservoirSampler_new\<rparr> of
        Inl e \<Rightarrow> Inl e
      | Inr ms \<Rightarrow>
          if mutation ms \<noteq> Mutation_None then Inr ms
          else Inl (AssertionFailed ''mutation() != Mutation::None''))"

fun submessages :: "MessagePath \<Rightarrow> Message \<Rightarrow> (MessagePath \<times> Message) list"
  and submessages_fields :: "MessagePath \<Rightarrow> nat \<Rightarrow> (FieldDescriptor \<times> Value list) list
                               \<Rightarrow> (MessagePath \<times> Message) list"
  and submessages_elements :: "MessagePath \<Rightarrow> nat \<Rightarrow> nat \<Rightarrow> Value list
                               \<Rightarrow> (MessagePath \<times> Message) list" where
  "submessages p (Message t es) = (p, Message t es) # submessages_fields p 0 es"
| "submessages_fields p i [] = []"
| "submessages_fields p i ((f, vs) # rest) =
     (if cpp_type f = CPPTYPE_MESSAGE
      then (if is_repeated f then submessages_elements p i 0 vs
            else (case vs of [] \<Rightarrow> [] | v # _ \<Rightarrow> submessages_elements p i 0 [v]))
      else []) @ submessages_fields p (Suc i) rest"
| "submessages_elements p i j [] = []"
| "submessages_elements p i j (v # rest) =
     (case v of VMessage sub \<Rightarrow> submessages (p @ [(i, j)]) sub | _ \<Rightarrow> [])
     @ submessages_elements p i (Suc j) rest"


definition delete_candidate :: "MutationSampler \<Rightarrow> MessagePath \<Rightarrow> Message \<Rightarrow> nat \<Rightarrow> nat \<times> Result" where
  "delete_candidate ms q c i =
     (ms_delete_weight ms, \<lparr>r_field = FieldInstance_of q c i None, r_mutation = Mutation_Delete\<rparr>)"


definition sampler_extends :: "MutationSampler \<Rightarrow> MutationSampler \<Rightarrow> bool" where
  "sampler_extends ms ms' =
     (ms_keep_initialized ms' = ms_keep_initialized ms \<and> ms_add_weight ms' = ms_add_weight ms \<and>
      ms_delete_weight ms' = ms_delete_weight ms \<and>
      (\<exists>new. offered (ms_sampler ms') = offered (ms_sampler ms) @ new \<and>
         (\<forall>(w, r)\<in>set new. ms_keep_initialized ms \<longrightarrow> r_mutation r = Mutation_Delete
             \<longrightarrow> \<not> is_required (fi_descriptor (r_field r)))))"


text \<open>
  The invariants of the protobuf library that the traversal relies on.  A oneof lists its
  members by their position in the message; every member names the oneof as its containing
  oneof and its rank in that list as \<^verbatim>\<open>index_in_oneof\<close>; at most one member of a oneof is
  set.  The values of a field of message type are messages.
\<close>

definition oneofs_ok :: "Message \<Rightarrow> bool" where
  "oneofs_ok m =
     list_all (\<lambda>i.
        case containing_oneof (field m i) of
          None \<Rightarrow> True
        | Some oneof \<Rightarrow>
            index_in_oneof (field m i) < length (oneof_fields oneof) \<and>
            oneof_fields oneof ! index_in_oneof (field m i) = i \<and>
            list_all (\<lambda>k.
                oneof_fields oneof ! k < field_count m \<and>
                containing_oneof (field m (oneof_fields oneof ! k)) = Some oneof \<and>
                index_in_oneof (field m (oneof_fields oneof ! k)) = k \<and>
                (if HasField m i \<and> HasField m (oneof_fields oneof ! k)
                 then oneof_fields oneof ! k = i else True))
              [0..<length (oneof_fields oneof)])
       [0..<field_count m]"

fun well_formed :: "Message \<Rightarrow> bool"
  and well_formed_fields :: "(FieldDescriptor \<times> Value list) list \<Rightarrow> bool"
  and well_formed_elements :: "Value list \<Rightarrow> bool" where
  "well_formed (Message t es) = (oneofs_ok (Message t es) \<and> well_formed_fields es)"
| "well_formed_fields [] = True"
| "well_formed_fields ((f, vs) # rest) =
     ((if cpp_type f = CPPTYPE_MESSAGE then well_formed_elements vs else True)
      \<and> well_formed_fields rest)"
| "well_formed_elements [] = True"
| "well_formed_elements (v # rest) =
     ((case v of VMessage sub \<Rightarrow> well_formed sub | _ \<Rightarrow> False) \<and> well_formed_elements rest)"

text \<open>
  The fields for which the visit of field \<open>j\<close> reaches a \<^verbatim>\<open>Try\<close> of a \<open>Delete\<close> without an
  index: the set member of a oneof, at the visit of the first member of the oneof, and a set
  singular field outside a oneof, unless it is required and \<open>keep_initialized\<close> is on.
\<close>

definition delete_targets :: "bool \<Rightarrow> Message \<Rightarrow> nat \<Rightarrow> nat list" where
  "delete_targets keep m j =
     (case containing_oneof (field m j) of
        Some oneof \<Rightarrow>
          if index_in_oneof (field m j) = 0
          then (case GetOneofFieldDescriptor m oneof of None \<Rightarrow> [] | Some g \<Rightarrow> [g])
          else []
      | None \<Rightarrow>
          if \<not> is_repeated (field m j) \<and> HasField m j \<and> (\<not> is_required (field m j) \<or> \<not> keep)
          then [j] else [])"

definition targets_offered :: "MutationSampler \<Rightarrow> (MessagePath \<times> Message) list \<Rightarrow> MutationSampler \<Rightarrow> bool" where
  "targets_offered ms L ms' =
     (\<forall>(q, c)\<in>set L. \<forall>j<field_count c. \<forall>k\<in>set (delete_targets (ms_keep_initialized ms) c j).
         delete_candidate ms q c k \<in> set (offered (ms_sampler ms')))"


section \<open>Data-source sampler\<close>

record DataSourceSampler =
  ds_match :: FieldInstance
  ds_random :: RandomEngine
  ds_sampler :: "FieldInstance WeightedReservoirSampler"

definition source_Try :: "nat \<Rightarrow> FieldInstance \<Rightarrow> DataSourceSampler \<Rightarrow> DataSourceSampler" where
  "source_Try w fi ds =
     (case Try w fi (ds_sampler ds, ds_random ds) of
        (s, random') \<Rightarrow> ds\<lparr>ds_random := random', ds_sampler := s\<rparr>)"

definition DataSource_candidates :: "MessagePath \<Rightarrow> Message \<Rightarrow> nat \<Rightarrow> DataSourceSampler
                                       \<Rightarrow> error + DataSourceSampler" where
  "DataSource_candidates p message i ds =
     (let f = field message i; match = fi_descriptor (ds_match ds) in
      if cpp_type f \<noteq> cpp_type match then Inr ds
      else if cpp_type match = CPPTYPE_ENUM \<and> enum_type f \<noteq> enum_type match then Inr ds
      else if cpp_type match \<noteq> CPPTYPE_ENUM \<and> cpp_type match = CPPTYPE_MESSAGE
              \<and> message_type f \<noteq> message_type match then Inr ds
      else if is_repeated f
      then (let field_size = FieldSize message i in
            if field_size \<noteq> 0
            then (case GetRandomIndex (ds_random ds) field_size of
                    Inl e \<Rightarrow> Inl e
                  | Inr (k, random1) \<Rightarrow>
                      Inr (source_Try field_size (FieldInstance_of p message i (Some k))
                             (ds\<lparr>ds_random := random1\<rparr>)))
            else Inr ds)
      else if HasField message i
      then Inr (source_Try 1 (FieldInstance_of p message i None) ds)
      else Inr ds)"

fun DataSource_Sample :: "MessagePath \<Rightarrow> Message \<Rightarrow> DataSourceSampler \<Rightarrow> error + DataSourceSampler"
  and DataSource_Sample_fields :: "MessagePath \<Rightarrow> Message \<Rightarrow> nat \<Rightarrow> (FieldDescriptor \<times> Value list) list
                          \<Rightarrow> DataSourceSampler \<Rightarrow> error + DataSourceSampler"
  and DataSource_Sample_elements :: "MessagePath \<Rightarrow> nat \<Rightarrow> nat \<Rightarrow> Value list
                          \<Rightarrow> DataSourceSampler \<Rightarrow> error + DataSourceSampler" where
  "DataSource_Sample p (Message t es) ds = DataSource_Sample_fields p (Message t es) 0 es ds"
| "DataSource_Sample_fields p message i [] ds = Inr ds"
| "DataSource_Sample_fields p message i ((f, vs) # rest) ds =
     (case (if cpp_type f = CPPTYPE_MESSAGE
            then (if is_repeated f then DataSource_Sample_elements p i 0 vs ds
                  else (case vs of
                          [] \<Rightarrow> Inr ds
                        | v # _ \<Rightarrow> DataSource_Sample_elements p i 0 [v] ds))
            else Inr ds) of
        Inl e \<Rightarrow> Inl e
      | Inr ds1 \<Rightarrow>
          (case DataSource_candidates p message i ds1 of
             Inl e \<Rightarrow> Inl e
           | Inr ds2 \<Rightarrow> DataSource_Sample_fields p message (Suc i) rest ds2))"
| "DataSource_Sample_elements p i j [] ds = Inr ds"
| "DataSource_Sample_elements p i j (v # rest) ds =
     (case v of
        VMessage sub \<Rightarrow>
          (case DataSource_Sample (p @ [(i, j)]) sub ds of
             Inl e \<Rightarrow> Inl e
           | Inr ds1 \<Rightarrow> DataSource_Sample_elements p i (Suc j) rest ds1)
      | _ \<Rightarrow> Inl (UndefinedBehaviour ''not a message''))"

definition DataSourceSampler_new :: "FieldInstance \<Rightarrow> RandomEngine \<Rightarrow> Message
                                       \<Rightarrow> error + DataSourceSampler" where
  "DataSourceSampler_new match random message =
     DataSource_Sample [] message
       \<lparr>ds_match = match, ds_random = random, ds_sampler = WeightedReservoirSampler_new\<rparr>"





section \<open>Field mutator and transformations\<close>

definition FieldMutator_Mutate :: "nat \<Rightarrow> FieldDescriptor \<Rightarrow> Value \<Rightarrow> RandomEngine
                                     \<Rightarrow> error + Value \<times> RandomEngine" where
  "FieldMutator_Mutate size_increase_hint f v random =
     (case v of
        VInt32 x \<Rightarrow> (case MutateInt32 x random of Inl e \<Rightarrow> Inl e | Inr (y, r) \<Rightarrow> Inr (VInt32 y, r))
      | VInt64 x \<Rightarrow> (case MutateInt64 x random of Inl e \<Rightarrow> Inl e | Inr (y, r) \<Rightarrow> Inr (VInt64 y, r))
      | VUInt32 x \<Rightarrow> (case MutateUInt32 x random of Inl e \<Rightarrow> Inl e | Inr (y, r) \<Rightarrow> Inr (VUInt32 y, r))
      | VUInt64 x \<Rightarrow> (case MutateUInt64 x random of Inl e \<Rightarrow> Inl e | Inr (y, r) \<Rightarrow> Inr (VUInt64 y, r))
      | VFloat x \<Rightarrow> (case MutateFloat x random of Inl e \<Rightarrow> Inl e | Inr (y, r) \<Rightarrow> Inr (VFloat y, r))
      | VDouble x \<Rightarrow> (case MutateDouble x random of Inl e \<Rightarrow> Inl e | Inr (y, r) \<Rightarrow> Inr (VDouble y, r))
      | VBool x \<Rightarrow> Inr (VBool (MutateBool x), random)
      | VEnum index \<Rightarrow>
          (let cnt = (case enum_type f of None \<Rightarrow> 0 | Some e \<Rightarrow> value_count e) in
           case MutateEnum index cnt random of
             Inl e \<Rightarrow> Inl e
           | Inr (index', r) \<Rightarrow>
               if index' < cnt then Inr (VEnum index', r)
               else Inl (AssertionFailed ''value->index < value->count''))
      | VString x \<Rightarrow>
          (case MutateString x size_increase_hint random of
             Inl e \<Rightarrow> Inl e
           | Inr (y, r) \<Rightarrow> Inr (VString y, r))
      | VMessage x \<Rightarrow> Inr (VMessage x, random))"

definition CreateDefaultFieldTransformation :: "Schema \<Rightarrow> Message \<Rightarrow> FieldInstance \<Rightarrow> error + Message" where
  "CreateDefaultFieldTransformation schema m fi =
     (case GetDefault schema (fi_descriptor fi) of
        Inl e \<Rightarrow> Inl e
      | Inr v \<Rightarrow> Create m fi v)"

definition DeleteFieldTransformation :: "Message \<Rightarrow> FieldInstance \<Rightarrow> error + Message" where
  "DeleteFieldTransformation m fi = Delete m fi"

definition CopyFieldTransformation :: "Message \<Rightarrow> FieldInstance \<Rightarrow> Message \<Rightarrow> FieldInstance
                                         \<Rightarrow> error + Message" where
  "CopyFieldTransformation source_message source m fi =
     (case Load source_message source of
        Inl e \<Rightarrow> Inl e
      | Inr v \<Rightarrow> Store m fi v)"

definition AppendFieldTransformation :: "Message \<Rightarrow> FieldInstance \<Rightarrow> Message \<Rightarrow> FieldInstance
                                           \<Rightarrow> error + Message" where
  "AppendFieldTransformation source_message source m fi =
     (case Load source_message source of
        Inl e \<Rightarrow> Inl e
      | Inr v \<Rightarrow> Create m fi v)"

definition MutateTransformation :: "nat \<Rightarrow> Message \<Rightarrow> FieldInstance \<Rightarrow> RandomEngine
                                      \<Rightarrow> error + Message \<times> RandomEngine" where
  "MutateTransformation size_increase_hint m fi random =
     (case Load m fi of
        Inl e \<Rightarrow> Inl e
      | Inr v \<Rightarrow>
          (case FieldMutator_Mutate size_increase_hint (fi_descriptor fi) v random of
             Inl e \<Rightarrow> Inl e
           | Inr (v', random') \<Rightarrow>
               (case Store m fi v' of
                  Inl e \<Rightarrow> Inl e
                | Inr m' \<Rightarrow> Inr (m', random'))))"

definition CreateFieldTransformation :: "Schema \<Rightarrow> nat \<Rightarrow> Message \<Rightarrow> FieldInstance \<Rightarrow> RandomEngine
                                           \<Rightarrow> error + Message \<times> RandomEngine" where
  "CreateFieldTransformation schema size_increase_hint m fi random =
     (case GetDefault schema (fi_descriptor fi) of
        Inl e \<Rightarrow> Inl e
      | Inr v \<Rightarrow>
          (case FieldMutator_Mutate size_increase_hint (fi_descriptor fi) v random of
             Inl e \<Rightarrow> Inl e
           | Inr (v', random') \<Rightarrow>
               (case Create m fi v' of
                  Inl e \<Rightarrow> Inl e
                | Inr m' \<Rightarrow> Inr (m', random'))))"

section \<open>Repair\<close>

fun for_each :: "nat list \<Rightarrow> (nat \<Rightarrow> 's \<Rightarrow> error + 's) \<Rightarrow> 's \<Rightarrow> error + 's" where
  "for_each [] body s = Inr s"
| "for_each (i # rest) body s =
     (case body i s of
        Inl e \<Rightarrow> Inl e
      | Inr s' \<Rightarrow> for_each rest body s')"

text \<open>
  \<^verbatim>\<open>ProtobufMutator::InitializeMessage\<close>.  The body of its loop over the fields and the repair
  of one nested message are named; \<open>recurse\<close> stands for the recursive call
  \<^verbatim>\<open>InitializeMessage(nested_message, max_depth - 1)\<close>.
\<close>

definition InitializeMessage_nested :: "(Message \<Rightarrow> error + Message) \<Rightarrow> nat \<Rightarrow> nat \<Rightarrow> Message
                                          \<Rightarrow> error + Message" where
  "InitializeMessage_nested recurse i j message =
     (case field_values message i ! j of
        VMessage nested_message \<Rightarrow>
          if \<not> IsInitialized nested_message
          then (case recurse nested_message of
                  Inl e \<Rightarrow> Inl e
                | Inr nested' \<Rightarrow>
                    Inr (set_values message i ((field_values message i)[j := VMessage nested'])))
          else Inr message
      | _ \<Rightarrow> Inl (UndefinedBehaviour ''not a message''))"

definition InitializeMessage_field :: "Schema \<Rightarrow> nat \<Rightarrow> (Message \<Rightarrow> error + Message) \<Rightarrow> nat \<Rightarrow> Message
                                         \<Rightarrow> error + Message" where
  "InitializeMessage_field schema max_depth recurse i message =
     (case (if is_required (field message i) \<and> \<not> HasField message i
            then CreateDefaultFieldTransformation schema message (FieldInstance_of [] message i None)
            else Inr message) of
        Inl e \<Rightarrow> Inl e
      | Inr message1 \<Rightarrow>
          if max_depth > 0 \<and> cpp_type (field message1 i) = CPPTYPE_MESSAGE
          then (if is_repeated (field message1 i)
                then for_each [0..<FieldSize message1 i] (InitializeMessage_nested recurse i) message1
                else if HasField message1 i
                then InitializeMessage_nested recurse i 0 message1
                else Inr message1)
          else Inr message1)"

fun InitializeMessage :: "Schema \<Rightarrow> bool \<Rightarrow> Message \<Rightarrow> nat \<Rightarrow> error + Message" where
  "InitializeMessage schema keep_initialized message 0 =
     (if \<not> keep_initialized then Inl (AssertionFailed ''keep_initialized_'')
      else Inl (AssertionFailed ''max_depth''))"
| "InitializeMessage schema keep_initialized message (Suc d) =
     (if \<not> keep_initialized then Inl (AssertionFailed ''keep_initialized_'')
      else for_each [0..<field_count message]
             (InitializeMessage_field schema (Suc d)
                (\<lambda>nested_message. InitializeMessage schema keep_initialized nested_message d))
             message)"

text \<open>
  The repair in the words of the specification: ``for every required field that is unset,
  install the default value; recurse into every present sub-message (both repeated and
  singular) whose \<open>is_initialized\<close> is false'', the recursion running with the depth
  decreased by one.  A singular field holds at most one value, its first.
\<close>

definition repair_nested :: "(Message \<Rightarrow> Message) \<Rightarrow> Value \<Rightarrow> Value" where
  "repair_nested rec v =
     (case v of
        VMessage sub \<Rightarrow> if IsInitialized sub then v else VMessage (rec sub)
      | _ \<Rightarrow> v)"

definition repair_field :: "Schema \<Rightarrow> (Message \<Rightarrow> Message) \<Rightarrow> FieldDescriptor \<times> Value list
                              \<Rightarrow> FieldDescriptor \<times> Value list" where
  "repair_field schema rec = (\<lambda>(f, vs).
     let vs1 = (if is_required f \<and> vs = []
                then (case GetDefault schema f of Inr v \<Rightarrow> [v] | Inl e \<Rightarrow> [])
                else vs)
     in (f, if cpp_type f = CPPTYPE_MESSAGE
            then (if is_repeated f then map (repair_nested rec) vs1
                  else (case vs1 of [] \<Rightarrow> [] | v # rest \<Rightarrow> repair_nested rec v # rest))
            else vs1))"

fun repaired :: "Schema \<Rightarrow> nat \<Rightarrow> Message \<Rightarrow> Message" where
  "repaired schema 0 m = m"
| "repaired schema (Suc d) m =
     Message (type_name m) (map (repair_field schema (repaired schema d)) (entries m))"

text \<open>
  Messages that the repair can handle with the given depth: in every field of message type
  the values are messages, each of them initialized or, in turn, repairable with one level
  less; and where such a field is required and unset, its message type is known and the
  prototype of that type is initialized or repairable with one level less.
\<close>

fun repairable :: "Schema \<Rightarrow> nat \<Rightarrow> Message \<Rightarrow> bool" where
  "repairable schema 0 m = False"
| "repairable schema (Suc d) m =
     list_all (\<lambda>(f, vs). cpp_type f = CPPTYPE_MESSAGE \<longrightarrow>
                 (is_required f \<and> vs = [] \<longrightarrow>
                    (case message_type f of
                       None \<Rightarrow> False
                     | Some t \<Rightarrow> IsInitialized (New schema t) \<or> repairable schema d (New schema t))) \<and>
                 list_all (\<lambda>v. case v of
                                  VMessage sub \<Rightarrow> IsInitialized sub \<or> repairable schema d sub
                                | _ \<Rightarrow> False) vs)
       (entries m)"

section \<open>Mutate driver\<close>

text \<open>
  \<^verbatim>\<open>mutation.field().Apply(transformation)\<close> runs the transformation on the message the handle
  points to, inside the tree.
\<close>

definition Apply :: "Message \<Rightarrow> FieldInstance \<Rightarrow> (Message \<Rightarrow> error + Message \<times> 'x)
                       \<Rightarrow> error + Message \<times> 'x" where
  "Apply message fi transformation = update_at message (fi_message fi) transformation"

definition returning :: "'x \<Rightarrow> error + Message \<Rightarrow> error + Message \<times> 'x" where
  "returning x r = (case r of Inl e \<Rightarrow> Inl e | Inr m \<Rightarrow> Inr (m, x))"

text \<open>The \<^verbatim>\<open>switch (mutation.mutation())\<close> of \<^verbatim>\<open>ProtobufMutator::Mutate\<close>.\<close>

definition Mutate_switch :: "Schema \<Rightarrow> Mutation \<Rightarrow> FieldInstance \<Rightarrow> RandomEngine \<Rightarrow> Message \<Rightarrow> nat
                               \<Rightarrow> error + Message \<times> RandomEngine" where
  "Mutate_switch schema mu fi random message size_increase_hint =
     (case mu of
        Mutation_None \<Rightarrow> Inr (message, random)
      | Mutation_Add \<Rightarrow>
          (case GetRandomBool random 2 of
             Inl e \<Rightarrow> Inl e
           | Inr (b, random1) \<Rightarrow>
               if b
               then Apply message fi
                      (\<lambda>m. CreateFieldTransformation schema (size_increase_hint div 2) m fi random1)
               else Apply message fi
                      (\<lambda>m. returning random1 (CreateDefaultFieldTransformation schema m fi)))
      | Mutation_Mutate \<Rightarrow>
          Apply message fi (\<lambda>m. MutateTransformation (size_increase_hint div 2) m fi random)
      | Mutation_Delete \<Rightarrow>
          Apply message fi (\<lambda>m. returning random (DeleteFieldTransformation m fi))
      | Mutation_Copy \<Rightarrow>
          (case DataSourceSampler_new fi random message of
             Inl e \<Rightarrow> Inl e
           | Inr source \<Rightarrow>
               if IsEmpty (ds_sampler source)
               then \<comment> \<open>Fallback to message deletion.\<close>
                 Apply message fi
                   (\<lambda>m. returning (ds_random source) (DeleteFieldTransformation m fi))
               else
                 (case selected (ds_sampler source) of
                    None \<Rightarrow> Inl (AssertionFailed ''!IsEmpty()'')
                  | Some source_field \<Rightarrow>
                      (case message_at message (fi_message source_field) of
                         Inl e \<Rightarrow> Inl e
                       | Inr source_message \<Rightarrow>
                           Apply message fi
                             (\<lambda>m. returning (ds_random source)
                                    (CopyFieldTransformation source_message source_field m fi))))))"

definition selected_field :: "MutationSampler \<Rightarrow> FieldInstance" where
  "selected_field ms =
     (case selected (ms_sampler ms) of
        None \<Rightarrow> \<lparr>fi_message = [], fi_descriptor = undefined, fi_position = 0, fi_index = None\<rparr>
      | Some r \<Rightarrow> r_field r)"

definition Mutate :: "Schema \<Rightarrow> bool \<Rightarrow> RandomEngine \<Rightarrow> Message \<Rightarrow> nat
                        \<Rightarrow> error + Message \<times> RandomEngine" where
  "Mutate schema keep_initialized random message size_increase_hint =
     (case MutationSampler_new keep_initialized size_increase_hint random message of
        Inl e \<Rightarrow> Inl e
      | Inr mutation_sampler \<Rightarrow>
          (case Mutate_switch schema (mutation mutation_sampler) (selected_field mutation_sampler)
                  (ms_random mutation_sampler) message size_increase_hint of
             Inl e \<Rightarrow> Inl e
           | Inr (message1, random1) \<Rightarrow>
               if keep_initialized \<and> \<not> IsInitialized message1
               then (case InitializeMessage schema keep_initialized message1 kMaxInitializeDepth of
                       Inl e \<Rightarrow> Inl e
                     | Inr message2 \<Rightarrow>
                         if IsInitialized message2 then Inr (message2, random1)
                         else Inl (AssertionFailed ''message->IsInitialized()''))
               else Inr (message1, random1)))"

definition example_a :: FieldDescriptor where
  "example_a = \<lparr>cpp_type = CPPTYPE_INT32, label = LABEL_REQUIRED, oneof_decl = None,
                 index_in_oneof = 0, enum_type = None, message_type = None\<rparr>"

definition example_b :: FieldDescriptor where
  "example_b = \<lparr>cpp_type = CPPTYPE_STRING, label = LABEL_OPTIONAL, oneof_decl = None,
                 index_in_oneof = 0, enum_type = None, message_type = None\<rparr>"

definition example_c :: FieldDescriptor where
  "example_c = \<lparr>cpp_type = CPPTYPE_INT32, label = LABEL_REPEATED, oneof_decl = None,
                 index_in_oneof = 0, enum_type = None, message_type = None\<rparr>"

definition example_M :: "Value list \<Rightarrow> Value list \<Rightarrow> Value list \<Rightarrow> Message" where
  "example_M a b c = Message 0 [(example_a, a), (example_b, b), (example_c, c)]"

definition example_schema :: Schema where
  "example_schema t = (if t = 0 then [example_a, example_b, example_c] else [])"

text \<open>
  A second message type, with a field \<open>child\<close> of the first message type and a oneof of an
  \<^verbatim>\<open>int32\<close> \<open>x\<close> and a \<^verbatim>\<open>string\<close> \<open>y\<close>.
\<close>

definition example_choice :: OneofDescriptor where
  "example_choice = \<lparr>oneof_name = 0, oneof_fields = [1, 2]\<rparr>"

definition example_child :: FieldDescriptor where
  "example_child = \<lparr>cpp_type = CPPTYPE_MESSAGE, label = LABEL_OPTIONAL, oneof_decl = None,
                     index_in_oneof = 0, enum_type = None, message_type = Some 0\<rparr>"

definition example_x :: FieldDescriptor where
  "example_x = \<lparr>cpp_type = CPPTYPE_INT32, label = LABEL_OPTIONAL, oneof_decl = Some example_choice,
                 index_in_oneof = 0, enum_type = None, message_type = None\<rparr>"

definition example_y :: FieldDescriptor where
  "example_y = \<lparr>cpp_type = CPPTYPE_STRING, label = LABEL_OPTIONAL, oneof_decl = Some example_choice,
                 index_in_oneof = 1, enum_type = None, message_type = None\<rparr>"

definition example_N :: "Value list \<Rightarrow> Value list \<Rightarrow> Value list \<Rightarrow> Message" where
  "example_N child x y = Message 1 [(example_child, child), (example_x, x), (example_y, y)]"

definition offers_at :: "MutationSampler \<Rightarrow> (nat \<times> MessagePath \<times> nat \<times> Mutation) list" where
  "offers_at ms =
     map (\<lambda>(w, r). (w, fi_message (r_field r), fi_position (r_field r), r_mutation r))
       (offered (ms_sampler ms))"


text \<open>A third message type, with a required field of the first message type.\<close>

definition example_r :: FieldDescriptor where
  "example_r = \<lparr>cpp_type = CPPTYPE_MESSAGE, label = LABEL_REQUIRED, oneof_decl = None,
                 index_in_oneof = 0, enum_type = None, message_type = Some 0\<rparr>"

definition example_P :: "Value list \<Rightarrow> Message" where
  "example_P r = Message 2 [(example_r, r)]"


section \<open>Properties of the random source\<close>

lemma uniform_int_distribution_range:
  assumes "a \<le> b"
  shows "a \<le> fst (uniform_int_distribution a b random)
           \<and> fst (uniform_int_distribution a b random) \<le> b"
proof (cases random)
  case Nil
  with assms show ?thesis by (simp add: uniform_int_distribution_def)
next
  case (Cons r rest)
  have "r mod (b - a + 1) < b - a + 1" by simp
  with assms have "a + r mod (b - a + 1) \<le> b" by linarith
  with Cons show ?thesis by (simp add: uniform_int_distribution_def)
qed

lemma GetRandomIndex_range:
  "0 < cnt \<Longrightarrow> \<exists>r random'. GetRandomIndex random cnt = Inr (r, random') \<and> r < cnt"
  by (cases random) (auto simp: GetRandomIndex_def uniform_int_distribution_def)

lemma GetRandomBool_ok:
  "0 < n \<Longrightarrow> \<exists>b random'. GetRandomBool random n = Inr (b, random')"
  using GetRandomIndex_range [of n random] by (auto simp: GetRandomBool_def)

lemma size_t_wrap_small: "n < 2 ^ 64 \<Longrightarrow> size_t_wrap n = n"
  by (simp add: size_t_wrap_def)

lemma size_t_wrap_once: "2 ^ 64 \<le> n \<Longrightarrow> n < 2 * 2 ^ 64 \<Longrightarrow> size_t_wrap n = n - 2 ^ 64"
  unfolding size_t_wrap_def by (simp add: le_mod_geq)

lemma sub_wrap:
  fixes a b M :: nat
  assumes "b \<le> a" "a < M"
  shows "(a + M - b) mod M = a - b"
proof -
  from assms have e: "a + M - b = (a - b) + M" by simp
  from assms have l: "a - b < M" by simp
  have "(a - b + M) mod M = (a - b) mod M" by (rule mod_add_self2)
  also from l have "\<dots> = a - b" by (rule mod_less)
  finally show ?thesis by (simp only: e)
qed

lemma size_t_sub_small: "b \<le> a \<Longrightarrow> a < 2 ^ 64 \<Longrightarrow> size_t_sub a b = a - b"
  unfolding size_t_sub_def by (rule sub_wrap)

section \<open>Enum rotation\<close>

lemma rotate_ne:
  fixes index r item_count :: nat
  assumes "index < item_count" "r < item_count - 1" "item_count < 2 ^ 64"
  shows "size_t_wrap (index + 1 + r) mod item_count \<noteq> index"
proof (cases "index + 1 + r < 2 ^ 64")
  case True
  show ?thesis
  proof
    assume "size_t_wrap (index + 1 + r) mod item_count = index"
    with True have e: "(index + 1 + r) mod item_count = index" by (simp add: size_t_wrap_small)
    show False
    proof (cases "index + 1 + r < item_count")
      case True
      with e show False by simp
    next
      case False
      with assms have "(index + 1 + r) mod item_count = index + 1 + r - item_count"
        by (simp add: le_mod_geq)
      with e assms False show False by simp
    qed
  qed
next
  case False
  with assms have "size_t_wrap (index + 1 + r) = index + 1 + r - 2 ^ 64"
    by (intro size_t_wrap_once) simp_all
  moreover from assms False have "index + 1 + r - 2 ^ 64 < item_count" by simp
  ultimately have "size_t_wrap (index + 1 + r) mod item_count = index + 1 + r - 2 ^ 64" by simp
  with assms False show ?thesis by simp
qed

text \<open>
  C1.  For an enum with at least two values and an index in range, \<open>MutateEnum\<close> returns
  \<open>(index + 1 + r) mod item_count\<close>, where \<open>r\<close> is the index that
  \<open>GetRandomIndex\<close> draws below \<open>item_count - 1\<close>; the sum is a \<^verbatim>\<open>size_t\<close> sum, which
  is the mathematical one whenever \<open>item_count \<le> 2 ^ 63\<close>.  The result differs from
  \<open>index\<close> and is below \<open>item_count\<close>, also when the sum wraps.
\<close>

theorem MutateEnum_rotates:
  assumes "2 \<le> item_count" "index < item_count" "item_count < 2 ^ 64"
  shows "\<exists>r random'.
           GetRandomIndex random (item_count - 1) = Inr (r, random') \<and> r < item_count - 1 \<and>
           MutateEnum index item_count random
             = Inr (size_t_wrap (index + 1 + r) mod item_count, random') \<and>
           size_t_wrap (index + 1 + r) mod item_count \<noteq> index \<and>
           size_t_wrap (index + 1 + r) mod item_count < item_count \<and>
           (item_count \<le> 2 ^ 63 \<longrightarrow>
              size_t_wrap (index + 1 + r) mod item_count = (index + 1 + r) mod item_count)"
proof -
  from assms have pos: "0 < item_count - 1" by simp
  from GetRandomIndex_range [OF pos] obtain r random'
    where g: "GetRandomIndex random (item_count - 1) = Inr (r, random')" and r: "r < item_count - 1"
    by blast
  from assms have sub: "size_t_sub item_count 1 = item_count - 1"
    by (intro size_t_sub_small) simp_all
  have m: "MutateEnum index item_count random
             = Inr (size_t_wrap (index + 1 + r) mod item_count, random')"
    using assms g by (simp add: MutateEnum_def sub del: One_nat_def)
  have ne: "size_t_wrap (index + 1 + r) mod item_count \<noteq> index"
    using assms r by (intro rotate_ne) simp_all
  have lt: "size_t_wrap (index + 1 + r) mod item_count < item_count"
    using assms by simp
  have ex: "item_count \<le> 2 ^ 63 \<longrightarrow>
              size_t_wrap (index + 1 + r) mod item_count = (index + 1 + r) mod item_count"
  proof
    assume "item_count \<le> 2 ^ 63"
    with assms r have "index + 1 + r < 2 ^ 64" by simp
    then show "size_t_wrap (index + 1 + r) mod item_count = (index + 1 + r) mod item_count"
      by (simp add: size_t_wrap_small)
  qed
  from g r m ne lt ex show ?thesis by blast
qed

theorem MutateEnum_rotates_witness:
  "(2::nat) \<le> 4 \<and> (3::nat) < 4 \<and> (4::nat) < 2 ^ 64 \<and> (4::nat) \<le> 2 ^ 63 \<and>
   MutateEnum 3 4 [2] = Inr (2, [])"
  using MutateEnum_rotates [of 4 3 "[2]"]
  by (simp add: GetRandomIndex_def uniform_int_distribution_def size_t_wrap_def)

text \<open>
  C10.  With \<open>item_count = 1\<close> the call \<open>GetRandomIndex random (item_count - 1)\<close> inside
  \<open>MutateEnum\<close> has \<open>count = 0\<close> and fails the assertion \<^verbatim>\<open>count > 0\<close>; with
  \<open>item_count \<ge> 2\<close> the argument \<open>item_count - 1\<close> is positive, the assertion holds and
  \<open>MutateEnum\<close> returns a value.
\<close>

theorem MutateEnum_needs_two_items:
  "GetRandomIndex random (size_t_sub 1 1) = Inl (AssertionFailed ''count > 0'') \<and>
   MutateEnum index 1 random = Inl (AssertionFailed ''count > 0'') \<and>
   (2 \<le> item_count \<and> item_count < 2 ^ 64 \<longrightarrow>
      0 < size_t_sub item_count 1 \<and>
      (\<exists>r random'. GetRandomIndex random (size_t_sub item_count 1) = Inr (r, random')) \<and>
      (\<exists>v random'. MutateEnum index item_count random = Inr (v, random')))"
proof -
  have z: "size_t_sub 1 1 = 0" by (simp add: size_t_sub_def)
  have a: "GetRandomIndex random (size_t_sub 1 1) = Inl (AssertionFailed ''count > 0'')"
    unfolding z by (simp add: GetRandomIndex_def)
  have b: "MutateEnum index 1 random = Inl (AssertionFailed ''count > 0'')"
    by (simp only: MutateEnum_def a sum.case)
  have c: "0 < size_t_sub item_count 1 \<and>
      (\<exists>r random'. GetRandomIndex random (size_t_sub item_count 1) = Inr (r, random')) \<and>
      (\<exists>v random'. MutateEnum index item_count random = Inr (v, random'))"
    if "2 \<le> item_count" "item_count < 2 ^ 64"
  proof -
    from that have sub: "size_t_sub item_count 1 = item_count - 1"
      by (intro size_t_sub_small) simp_all
    from that have pos: "0 < item_count - 1" by simp
    from GetRandomIndex_range [OF pos] obtain r random'
      where g: "GetRandomIndex random (item_count - 1) = Inr (r, random')" by blast
    from that g have "MutateEnum index item_count random
             = Inr (size_t_wrap (index + 1 + r) mod item_count, random')"
      by (simp add: MutateEnum_def sub del: One_nat_def)
    with g pos show ?thesis by (auto simp: sub simp del: One_nat_def)
  qed
  from a b c show ?thesis by blast
qed

theorem MutateEnum_needs_two_items_witness:
  "(2::nat) \<le> 2 \<and> (2::nat) < 2 ^ 64 \<and>
   MutateEnum 0 1 [5] = Inl (AssertionFailed ''count > 0'') \<and>
   MutateEnum 0 2 [5] = Inr (1, [5])"
  using MutateEnum_needs_two_items [of "[5]" 0 2]
  by (simp add: MutateEnum_def GetRandomIndex_def size_t_sub_def size_t_wrap_def)

section \<open>Integer bit flips\<close>

lemma length_object_bytes [simp]: "length (object_bytes (v :: 'a::len word)) = LENGTH('a) div 8"
  by (simp add: object_bytes_def)

lemma bit_object_value:
  "bit (object_value bs :: 'a::len word) n
     \<longleftrightarrow> n < LENGTH('a) \<and> n div 8 < length bs \<and> bit (bs ! (n div 8)) (n mod 8)"
  using bit_horner_sum_uint_exp_iff [where ?'a = 8, of bs n]
  by (simp add: object_value_def bit_word_of_int_iff)

lemma bit_object_bytes:
  "i < LENGTH('a) div 8 \<Longrightarrow> j < 8
     \<Longrightarrow> bit (object_bytes (v :: 'a::len word) ! i) j = bit v (8 * i + j)"
  by (simp add: object_bytes_def bit_simps)

lemma object_value_flip:
  fixes v :: "'a::len word"
  assumes dvd: "8 dvd LENGTH('a)" and b: "b < LENGTH('a)"
  shows "object_value ((object_bytes v)[b div 8 := (object_bytes v ! (b div 8)) XOR push_bit (b mod 8) 1])
           = v XOR push_bit b 1"
proof (rule bit_word_eqI)
  fix n assume n: "n < LENGTH('a)"
  from dvd obtain k where k: "LENGTH('a) = 8 * k" by (auto simp: dvd_def)
  from n k have nd: "n div 8 < LENGTH('a) div 8" by simp
  from b k have bd: "b div 8 < LENGTH('a) div 8" by simp
  have eq: "n = b \<longleftrightarrow> n div 8 = b div 8 \<and> n mod 8 = b mod 8"
    by (metis div_mult_mod_eq)
  show "bit (object_value ((object_bytes v)[b div 8 := (object_bytes v ! (b div 8)) XOR push_bit (b mod 8) 1]) :: 'a word) n
          = bit (v XOR push_bit b 1) n"
    using n nd bd eq
    by (auto simp: bit_object_value bit_object_bytes nth_list_update bit_simps)
qed

lemma object_bytes_flip:
  fixes v :: "'a::len word"
  assumes dvd: "8 dvd LENGTH('a)" and b: "b < LENGTH('a)"
  shows "object_bytes (v XOR push_bit b 1)
           = (object_bytes v)[b div 8 := (object_bytes v ! (b div 8)) XOR push_bit (b mod 8) 1]"
proof (rule nth_equalityI)
  show "length (object_bytes (v XOR push_bit b 1))
          = length ((object_bytes v)[b div 8 := (object_bytes v ! (b div 8)) XOR push_bit (b mod 8) 1])"
    by simp
next
  fix i assume "i < length (object_bytes (v XOR push_bit b 1))"
  then have i: "i < LENGTH('a) div 8" by simp
  from dvd obtain k where k: "LENGTH('a) = 8 * k" by (auto simp: dvd_def)
  from b k have bd: "b div 8 < LENGTH('a) div 8" by simp
  show "object_bytes (v XOR push_bit b 1) ! i
          = (object_bytes v)[b div 8 := (object_bytes v ! (b div 8)) XOR push_bit (b mod 8) 1] ! i"
  proof (rule bit_word_eqI)
    fix j assume "j < LENGTH(8)"
    then have j: "j < 8" by simp
    from i j k have ij: "8 * i + j < LENGTH('a)" by simp
    have eq: "8 * i + j = b \<longleftrightarrow> i = b div 8 \<and> j = b mod 8"
      using j by auto
    show "bit (object_bytes (v XOR push_bit b 1) ! i) j
            = bit ((object_bytes v)[b div 8 := (object_bytes v ! (b div 8)) XOR push_bit (b mod 8) 1] ! i) j"
      using i j bd ij eq
      by (auto simp: bit_object_bytes nth_list_update bit_simps)
  qed
qed

lemma flip_changes:
  fixes v :: "'a::len word"
  assumes "b < LENGTH('a)"
  shows "v XOR push_bit b 1 \<noteq> v"
proof
  assume "v XOR push_bit b 1 = v"
  then have "bit (v XOR push_bit b 1) b = bit v b" by simp
  with assms show False by (simp add: bit_simps)
qed

lemma FlipBit_value_eq:
  fixes v :: "'a::len word"
  assumes dvd: "8 dvd LENGTH('a)"
    and sz: "size_t_sub (size_t_wrap (sizeof v * 8)) 1 = LENGTH('a) - 1"
  shows "\<exists>b random'. b < LENGTH('a) \<and>
           uniform_int_distribution 0 (LENGTH('a) - 1) random = (b, random') \<and>
           FlipBit_value v random = Inr (v XOR push_bit b 1, random')"
proof -
  obtain b random' where u: "uniform_int_distribution 0 (LENGTH('a) - 1) random = (b, random')"
    by (cases "uniform_int_distribution 0 (LENGTH('a) - 1) random") blast
  from uniform_int_distribution_range [of 0 "LENGTH('a) - 1" random] u
  have b: "b < LENGTH('a)" by simp
  from dvd obtain k where k: "LENGTH('a) = 8 * k" by (auto simp: dvd_def)
  from b k have bd: "b div 8 < LENGTH('a) div 8" by simp
  have "FlipBit_value v random = Inr (v XOR push_bit b 1, random')"
    using u bd object_value_flip [OF dvd b, of v]
    by (simp add: FlipBit_value_def FlipBit_def sz del: One_nat_def)
  with b u show ?thesis by blast
qed

lemma FlipBit_value_32:
  fixes v :: "32 word"
  shows "\<exists>b random'. b < 32 \<and> FlipBit_value v random = Inr (v XOR push_bit b 1, random') \<and>
           v XOR push_bit b 1 \<noteq> v \<and>
           object_bytes (v XOR push_bit b 1)
             = (object_bytes v)[b div 8 := (object_bytes v ! (b div 8)) XOR push_bit (b mod 8) 1]"
proof -
  have sz: "size_t_sub (size_t_wrap (sizeof v * 8)) 1 = LENGTH(32) - 1"
    by (simp add: sizeof_def size_t_wrap_def size_t_sub_def)
  from FlipBit_value_eq [of v random, OF _ sz]
  obtain b random' where "b < 32" "FlipBit_value v random = Inr (v XOR push_bit b 1, random')"
    by auto
  then show ?thesis
    using flip_changes [of b v] object_bytes_flip [of b v] by auto
qed

lemma FlipBit_value_64:
  fixes v :: "64 word"
  shows "\<exists>b random'. b < 64 \<and> FlipBit_value v random = Inr (v XOR push_bit b 1, random') \<and>
           v XOR push_bit b 1 \<noteq> v \<and>
           object_bytes (v XOR push_bit b 1)
             = (object_bytes v)[b div 8 := (object_bytes v ! (b div 8)) XOR push_bit (b mod 8) 1]"
proof -
  have sz: "size_t_sub (size_t_wrap (sizeof v * 8)) 1 = LENGTH(64) - 1"
    by (simp add: sizeof_def size_t_wrap_def size_t_sub_def)
  from FlipBit_value_eq [of v random, OF _ sz]
  obtain b random' where "b < 64" "FlipBit_value v random = Inr (v XOR push_bit b 1, random')"
    by auto
  then show ?thesis
    using flip_changes [of b v] object_bytes_flip [of b v] by auto
qed

text \<open>
  C8.  Each of the four integer mutators returns its argument with exactly one bit flipped:
  bit \<open>b\<close> of the value, which is bit \<open>b mod 8\<close> of byte \<open>b div 8\<close> of its object
  representation, every other byte being unchanged.  The result is never the argument.
\<close>

theorem MutateInt_flips_one_bit:
  "(\<exists>b random'. b < 32 \<and> MutateInt32 v32 random = Inr (v32 XOR push_bit b 1, random') \<and>
       v32 XOR push_bit b 1 \<noteq> v32 \<and>
       object_bytes (v32 XOR push_bit b 1)
         = (object_bytes v32)[b div 8 := (object_bytes v32 ! (b div 8)) XOR push_bit (b mod 8) 1]) \<and>
   (\<exists>b random'. b < 64 \<and> MutateInt64 v64 random = Inr (v64 XOR push_bit b 1, random') \<and>
       v64 XOR push_bit b 1 \<noteq> v64 \<and>
       object_bytes (v64 XOR push_bit b 1)
         = (object_bytes v64)[b div 8 := (object_bytes v64 ! (b div 8)) XOR push_bit (b mod 8) 1]) \<and>
   (\<exists>b random'. b < 32 \<and> MutateUInt32 v32 random = Inr (v32 XOR push_bit b 1, random') \<and>
       v32 XOR push_bit b 1 \<noteq> v32 \<and>
       object_bytes (v32 XOR push_bit b 1)
         = (object_bytes v32)[b div 8 := (object_bytes v32 ! (b div 8)) XOR push_bit (b mod 8) 1]) \<and>
   (\<exists>b random'. b < 64 \<and> MutateUInt64 v64 random = Inr (v64 XOR push_bit b 1, random') \<and>
       v64 XOR push_bit b 1 \<noteq> v64 \<and>
       object_bytes (v64 XOR push_bit b 1)
         = (object_bytes v64)[b div 8 := (object_bytes v64 ! (b div 8)) XOR push_bit (b mod 8) 1])"
  unfolding MutateInt32_def MutateInt64_def MutateUInt32_def MutateUInt64_def
  using FlipBit_value_32 [of v32 random] FlipBit_value_64 [of v64 random] by simp

section \<open>String mutation\<close>

lemma MutateString_shrink_ok:
  "\<exists>r random'. MutateString_shrink v random = Inr (r, random') \<and> length r \<le> length v
      \<and> (length r = length v \<longrightarrow> r = v)"
proof (induction v random rule: MutateString_shrink.induct)
  case (1 result random)
  show ?case
  proof (cases "result = []")
    case True
    then show ?thesis by simp
  next
    case ne: False
    from GetRandomBool_ok [of 2 random] obtain heads random1
      where b: "GetRandomBool random 2 = Inr (heads, random1)" by auto
    show ?thesis
    proof (cases heads)
      case False
      with ne b show ?thesis by simp
    next
      case True
      from ne GetRandomIndex_range [of "length result" random1] obtain index random2
        where i: "GetRandomIndex random1 (length result) = Inr (index, random2)"
          and lt: "index < length result" by auto
      from True have nh: "\<not> \<not> heads" by simp
      from "1.IH" [OF ne b refl nh i refl lt]
      obtain r random' where
        "MutateString_shrink (take index result @ drop (Suc index) result) random2 = Inr (r, random')"
        "length r \<le> length (take index result @ drop (Suc index) result)"
        by auto
      with ne b True i lt show ?thesis
        by (subst MutateString_shrink.simps) auto
    qed
  qed
qed

lemma MutateString_grow_ok:
  "\<exists>r random'. MutateString_grow v h random = Inr (r, random') \<and> length r \<le> max (length v) h
      \<and> length v \<le> length r \<and> (\<not> length v < h \<longrightarrow> r = v)"
proof (induction v h random rule: MutateString_grow.induct)
  case (1 result h random)
  show ?case
  proof (cases "length result < h")
    case False
    then show ?thesis by simp
  next
    case lt: True
    then have nlt: "\<not> \<not> length result < h" by simp
    from GetRandomBool_ok [of 2 random] obtain heads random1
      where b: "GetRandomBool random 2 = Inr (heads, random1)" by auto
    show ?thesis
    proof (cases heads)
      case False
      with lt b show ?thesis by simp
    next
      case True
      then have nh: "\<not> \<not> heads" by simp
      from GetRandomIndex_range [of "length result + 1" random1] obtain index random2
        where i: "GetRandomIndex random1 (length result + 1) = Inr (index, random2)"
          and le: "index \<le> length result" by auto
      from GetRandomIndex_range [of "push_bit 8 1" random2] obtain c random3
        where c: "GetRandomIndex random2 (push_bit 8 1) = Inr (c, random3)" by auto
      from "1.IH" [OF nlt b refl nh i refl c refl le]
      obtain r random' where
        "MutateString_grow (take index result @ [of_nat c] @ drop index result) h random3 = Inr (r, random')"
        "length r \<le> max (length (take index result @ [of_nat c] @ drop index result)) h"
        "length (take index result @ [of_nat c] @ drop index result) \<le> length r"
        by auto
      with lt b True i le c show ?thesis
        by (subst MutateString_grow.simps) auto
    qed
  qed
qed

lemma FlipBit_bound:
  assumes "0 < n"
  shows "size_t_sub (size_t_wrap (n * 8)) 1 div 8 < n"
proof (cases "n * 8 < 2 ^ 64")
  case True
  with assms have "size_t_sub (size_t_wrap (n * 8)) 1 = n * 8 - 1"
    by (simp add: size_t_wrap_small size_t_sub_small del: One_nat_def)
  with assms show ?thesis by simp
next
  case False
  have "size_t_sub (size_t_wrap (n * 8)) 1 < 2 ^ 64"
    by (simp add: size_t_sub_def)
  with False show ?thesis by simp
qed

lemma FlipBit_ok:
  assumes "bytes \<noteq> []"
  shows "\<exists>b random'. b div 8 < length bytes \<and>
           FlipBit (length bytes) bytes random
             = Inr (bytes[b div 8 := (bytes ! (b div 8)) XOR push_bit (b mod 8) 1], random')"
proof -
  let ?hi = "size_t_sub (size_t_wrap (length bytes * 8)) 1"
  obtain b random' where u: "uniform_int_distribution 0 ?hi random = (b, random')"
    by (cases "uniform_int_distribution 0 ?hi random") blast
  from uniform_int_distribution_range [of 0 ?hi random] u have "b \<le> ?hi" by simp
  then have "b div 8 \<le> ?hi div 8" by (rule div_le_mono)
  with FlipBit_bound [of "length bytes"] assms have bd: "b div 8 < length bytes" by simp
  with u show ?thesis by (auto simp: FlipBit_def simp del: One_nat_def)
qed

lemma list_flip_ne:
  assumes "k < length (bytes :: byte list)"
  shows "bytes[k := (bytes ! k) XOR push_bit (b mod 8) 1] \<noteq> bytes"
proof
  assume "bytes[k := (bytes ! k) XOR push_bit (b mod 8) 1] = bytes"
  then have "bytes[k := (bytes ! k) XOR push_bit (b mod 8) 1] ! k = bytes ! k" by simp
  with assms have "(bytes ! k) XOR push_bit (b mod 8) 1 = bytes ! k" by simp
  with flip_changes [of "b mod 8" "bytes ! k"] show False by simp
qed

text \<open>
  C9.  \<open>MutateString\<close> always returns (its two loops are total functions: the first is
  defined by recursion on the length of the string, which every iteration decreases by one,
  the second on the distance of the length to the hint), it never fails, and the result is
  no longer than the larger of the argument's length and the hint.  The shrink loop
  returns a string \<open>r1\<close> no longer than the argument; the grow loop extends \<open>r1\<close> to
  \<open>r2\<close> no longer than the larger of \<open>length r1\<close> and the hint, and changes nothing unless
  \<open>length r1\<close> is below the hint; the final bit flip keeps the length.
\<close>

theorem MutateString_length_bound:
  "\<exists>r1 random1 r2 random2 v' random'.
     MutateString_shrink v random = Inr (r1, random1) \<and> length r1 \<le> length v \<and>
     MutateString_grow r1 h random1 = Inr (r2, random2) \<and>
     length r1 \<le> length r2 \<and> length r2 \<le> max (length r1) h \<and>
     (\<not> length r1 < h \<longrightarrow> r2 = r1) \<and>
     MutateString v h random = Inr (v', random') \<and> length v' = length r2 \<and>
     length v' \<le> max (length v) h"
proof -
  from MutateString_shrink_ok [of v random] obtain r1 random1
    where s: "MutateString_shrink v random = Inr (r1, random1)" and l1: "length r1 \<le> length v"
    by blast
  from MutateString_grow_ok [of r1 h random1] obtain r2 random2
    where g: "MutateString_grow r1 h random1 = Inr (r2, random2)"
      and l2: "length r2 \<le> max (length r1) h" and l3: "length r1 \<le> length r2"
      and e: "\<not> length r1 < h \<longrightarrow> r2 = r1"
    by blast
  have "\<exists>v' random'. MutateString v h random = Inr (v', random') \<and> length v' = length r2"
  proof (cases "r2 = []")
    case True
    with s g show ?thesis by (simp add: MutateString_def)
  next
    case False
    from FlipBit_ok [OF False, of random2] obtain b random3
      where "FlipBit (length r2) r2 random2
               = Inr (r2[b div 8 := (r2 ! (b div 8)) XOR push_bit (b mod 8) 1], random3)"
      by blast
    with s g False show ?thesis by (simp add: MutateString_def)
  qed
  then obtain v' random' where
    m: "MutateString v h random = Inr (v', random')" and l4: "length v' = length r2" by blast
  from l1 l2 l4 have "length v' \<le> max (length v) h" by simp
  with s l1 g l3 l2 e m l4 show ?thesis by blast
qed

theorem MutateString_length_bound_witness:
  "MutateString_shrink [104, 105] [0, 1, 1, 0, 0, 65, 1, 9] = Inr ([104], [0, 0, 65, 1, 9]) \<and>
   MutateString_grow [104] 3 [0, 0, 65, 1, 9] = Inr ([65, 104], [9]) \<and>
   MutateString_grow [104] 1 [0, 0, 65, 1, 9] = Inr ([104], [0, 0, 65, 1, 9]) \<and>
   MutateString [104, 105] 3 [0, 1, 1, 0, 0, 65, 1, 9] = Inr ([65, 106], [])"
  using MutateString_length_bound [of "[104, 105]" "[0, 1, 1, 0, 0, 65, 1, 9]" 3]
    MutateString_length_bound [of "[104, 105]" "[0, 1, 1, 0, 0, 65, 1, 9]" 1]
  by (simp add: MutateString_def GetRandomBool_def GetRandomIndex_def uniform_int_distribution_def
        FlipBit_def size_t_wrap_def size_t_sub_def)

text \<open>
  C5.  With hint 0 the grow loop does nothing, so for a non-empty argument the result is
  either shorter than the argument or the argument with one bit flipped: in both cases it
  is not the argument.
\<close>

theorem MutateString_changes_nonempty:
  assumes "v \<noteq> []"
  shows "\<exists>v' random'. MutateString v 0 random = Inr (v', random') \<and> v' \<noteq> v \<and>
           (length v' = length v \<longrightarrow>
              (\<exists>b. b div 8 < length v \<and>
                   v' = v[b div 8 := (v ! (b div 8)) XOR push_bit (b mod 8) 1]))"
proof -
  from MutateString_shrink_ok [of v random] obtain r1 random1
    where s: "MutateString_shrink v random = Inr (r1, random1)" and l1: "length r1 \<le> length v"
      and e1: "length r1 = length v \<longrightarrow> r1 = v"
    by blast
  have g: "MutateString_grow r1 0 random1 = Inr (r1, random1)" by simp
  show ?thesis
  proof (cases "r1 = []")
    case True
    with s g assms show ?thesis by (simp add: MutateString_def)
  next
    case False
    from FlipBit_ok [OF False, of random1] obtain b random2
      where bd: "b div 8 < length r1"
        and f: "FlipBit (length r1) r1 random1
               = Inr (r1[b div 8 := (r1 ! (b div 8)) XOR push_bit (b mod 8) 1], random2)"
      by blast
    from s g f False have m: "MutateString v 0 random
               = Inr (r1[b div 8 := (r1 ! (b div 8)) XOR push_bit (b mod 8) 1], random2)"
      by (simp add: MutateString_def)
    show ?thesis
    proof (cases "length r1 = length v")
      case True
      with e1 have "r1 = v" by simp
      with m bd list_flip_ne [of "b div 8" v b] show ?thesis by auto
    next
      case False
      then have "r1[b div 8 := (r1 ! (b div 8)) XOR push_bit (b mod 8) 1] \<noteq> v" by auto
      with m False show ?thesis by simp
    qed
  qed
qed

theorem MutateString_changes_nonempty_witness:
  "[104, 105 :: byte] \<noteq> [] \<and> MutateString [104, 105] 0 [1, 3] = Inr ([96, 105], []) \<and>
   length [96, 105 :: byte] = length [104, 105 :: byte]"
  using MutateString_changes_nonempty [of "[104, 105]" "[1, 3]"]
  by (simp add: MutateString_def GetRandomBool_def GetRandomIndex_def uniform_int_distribution_def
        FlipBit_def size_t_wrap_def size_t_sub_def)

section \<open>Sampler weights\<close>

lemma initial_add_weight_closed:
  assumes "h < 128"
  shows "initial_add_weight h = (3125 * h) div 8"
proof -
  have "(100000::rat) * (1 / 2 * of_nat h / 128) = of_nat (3125 * h) / of_nat 8" by simp
  then have "\<lfloor>(100000::rat) * (1 / 2 * of_nat h / 128)\<rfloor> = int ((3125 * h) div 8)"
    by (simp only: floor_divide_of_nat_eq)
  with assms show ?thesis
    by (simp add: initial_add_weight_def kDeletionThreshold_def uint64_times_float_def
          adjustment_def kMutateWeight_def)
qed

lemma initial_delete_weight_closed:
  assumes "h < 128"
  shows "initial_delete_weight h = (3125 * (256 - h)) div 8"
proof -
  from assms
  have "(100000::rat) * (1 - 1 / 2 * of_nat h / 128) = of_nat (3125 * (256 - h)) / of_nat 8"
    by (simp add: algebra_simps)
  then have "\<lfloor>(100000::rat) * (1 - 1 / 2 * of_nat h / 128)\<rfloor> = int ((3125 * (256 - h)) div 8)"
    by (simp only: floor_divide_of_nat_eq)
  with assms show ?thesis
    by (simp add: initial_delete_weight_def kDeletionThreshold_def uint64_times_float_def
          adjustment_def kMutateWeight_def)
qed

lemma binary32I: "m < 2 ^ 24 \<Longrightarrow> e \<le> 149 \<Longrightarrow> q = of_nat m / 2 ^ e \<Longrightarrow> binary32 q"
  unfolding binary32_def by blast

lemma adjustment_eq: "adjustment h = rat_of_nat h / 256"
  by (simp add: adjustment_def kDeletionThreshold_def)

lemma one_minus_adjustment_eq:
  assumes "h < 128"
  shows "1 - adjustment h = rat_of_nat (256 - h) / 256"
proof -
  from assms have "rat_of_nat (256 - h) = 256 - rat_of_nat h" by simp
  then show ?thesis by (simp add: adjustment_eq diff_divide_distrib)
qed

lemma weights_exact_in_binary32:
  assumes "h < 128"
  shows "binary32 (adjustment h)" "binary32 (1 - adjustment h)"
    "binary32 (of_nat (kMutateWeight div 10))"
    "binary32 (of_nat (kMutateWeight div 10) * adjustment h)"
    "binary32 (of_nat (kMutateWeight div 10) * (1 - adjustment h))"
proof -
  from assms show "binary32 (adjustment h)"
    by (intro binary32I [of h 8]) (simp_all add: adjustment_eq)
  from assms show "binary32 (1 - adjustment h)"
    by (intro binary32I [of "256 - h" 8]) (simp_all add: one_minus_adjustment_eq)
  show "binary32 (of_nat (kMutateWeight div 10))"
    by (intro binary32I [of 100000 0]) (simp_all add: kMutateWeight_def)
  from assms show "binary32 (of_nat (kMutateWeight div 10) * adjustment h)"
    by (intro binary32I [of "3125 * h" 3]) (simp_all add: adjustment_eq kMutateWeight_def)
  from assms show "binary32 (of_nat (kMutateWeight div 10) * (1 - adjustment h))"
    by (intro binary32I [of "3125 * (256 - h)" 3])
       (simp_all add: one_minus_adjustment_eq kMutateWeight_def)
qed

lemma dvd_3125_cancel:
  fixes n :: nat
  assumes a: "8 dvd 3125 * n"
  shows "8 dvd n"
proof -
  have e1: "3125 * n = 8 * (390 * n) + 5 * n" by simp
  from a have "8 dvd 8 * (390 * n) + 5 * n" by (simp only: e1)
  then have b: "8 dvd 5 * n" by (simp only: dvd_add_right_iff dvd_triv_left)
  then have c: "8 dvd 5 * (5 * n)" by (rule dvd_mult)
  have e2: "5 * (5 * n) = 8 * (3 * n) + n" by simp
  from c have "8 dvd 8 * (3 * n) + n" by (simp only: e2)
  then show "8 dvd n" by (simp only: dvd_add_right_iff dvd_triv_left)
qed

lemma of_nat_div8_exact:
  "(rat_of_nat (3125 * n div 8) = rat_of_nat (3125 * n) / 8) = (8 dvd n)"
proof
  assume "rat_of_nat (3125 * n div 8) = rat_of_nat (3125 * n) / 8"
  then have "rat_of_nat (3125 * n div 8 * 8) = rat_of_nat (3125 * n)" by simp
  then have "3125 * n div 8 * 8 = 3125 * n" by (simp only: of_nat_eq_iff)
  then have "8 dvd 3125 * n" by (metis dvd_triv_right)
  then show "8 dvd n" by (rule dvd_3125_cancel)
next
  assume "8 dvd n"
  then obtain k where k: "n = 8 * k" by (auto simp only: dvd_def)
  have "3125 * (8 * k) div 8 = 3125 * k" by simp
  moreover have "rat_of_nat (3125 * (8 * k)) / 8 = rat_of_nat (3125 * k)" by simp
  ultimately show "rat_of_nat (3125 * n div 8) = rat_of_nat (3125 * n) / 8" by (simp only: k)
qed

lemma dvd_256_minus:
  fixes h :: nat
  assumes h: "h < 128"
  shows "8 dvd (256 - h) \<longleftrightarrow> 8 dvd h"
proof -
  have d: "(8::nat) dvd 256" by (rule dvdI [of _ _ 32]) simp
  show ?thesis
  proof
    assume "8 dvd 256 - h"
    with d have "8 dvd 256 - (256 - h)" by (rule dvd_diff_nat)
    moreover from h have "256 - (256 - h) = h" by simp
    ultimately show "8 dvd h" by (simp only:)
  next
    assume "8 dvd h"
    with d show "8 dvd 256 - h" by (rule dvd_diff_nat)
  qed
qed

text \<open>
  C7, as the code has it.  \<open>kMutateWeight\<close> is \<open>10 ^ 6\<close> and the base weights are
  \<open>10 ^ 5\<close>.  The weights are 64-bit unsigned integers: below the threshold 128 the scaled
  weights are the integer parts of \<open>10 ^ 5 * a\<close> and \<open>10 ^ 5 * (1 - a)\<close> for
  \<open>a = 0.5 * size_increase_hint / 128\<close>, that is \<open>3125 * h div 8\<close> and
  \<open>3125 * (256 - h) div 8\<close>, and they are the products themselves exactly when 8 divides
  the hint.  From 128 on both weights stay \<open>10 ^ 5\<close>.
\<close>

theorem sampler_weights:
  "kMutateWeight = 10 ^ 6 \<and> kMutateWeight div 10 = 10 ^ 5 \<and> kDeletionThreshold = 128 \<and>
   (h < 128 \<longrightarrow>
      adjustment h = (1 / 2) * of_nat h / 128 \<and>
      initial_add_weight h = nat \<lfloor>10 ^ 5 * adjustment h\<rfloor> \<and>
      initial_add_weight h = 3125 * h div 8 \<and>
      initial_delete_weight h = nat \<lfloor>10 ^ 5 * (1 - adjustment h)\<rfloor> \<and>
      initial_delete_weight h = 3125 * (256 - h) div 8 \<and>
      (rat_of_nat (initial_add_weight h) = 10 ^ 5 * adjustment h \<longleftrightarrow> 8 dvd h) \<and>
      (rat_of_nat (initial_delete_weight h) = 10 ^ 5 * (1 - adjustment h) \<longleftrightarrow> 8 dvd h)) \<and>
   (128 \<le> h \<longrightarrow> initial_add_weight h = 10 ^ 5 \<and> initial_delete_weight h = 10 ^ 5)"
proof -
  have cs: "kMutateWeight = 10 ^ 6" "kMutateWeight div 10 = 10 ^ 5" "kDeletionThreshold = 128"
    by (simp_all add: kMutateWeight_def kDeletionThreshold_def)
  have big: "initial_add_weight h = 10 ^ 5 \<and> initial_delete_weight h = 10 ^ 5" if "128 \<le> h"
    using that
    by (simp add: initial_add_weight_def initial_delete_weight_def kMutateWeight_def
          kDeletionThreshold_def)
  have small: "adjustment h = (1 / 2) * of_nat h / 128 \<and>
      initial_add_weight h = nat \<lfloor>10 ^ 5 * adjustment h\<rfloor> \<and>
      initial_add_weight h = 3125 * h div 8 \<and>
      initial_delete_weight h = nat \<lfloor>10 ^ 5 * (1 - adjustment h)\<rfloor> \<and>
      initial_delete_weight h = 3125 * (256 - h) div 8 \<and>
      (rat_of_nat (initial_add_weight h) = 10 ^ 5 * adjustment h \<longleftrightarrow> 8 dvd h) \<and>
      (rat_of_nat (initial_delete_weight h) = 10 ^ 5 * (1 - adjustment h) \<longleftrightarrow> 8 dvd h)"
    if lt: "h < 128"
  proof -
    have a: "adjustment h = (1 / 2) * of_nat h / 128"
      by (simp add: adjustment_def kDeletionThreshold_def)
    from lt have b: "initial_add_weight h = nat \<lfloor>10 ^ 5 * adjustment h\<rfloor>"
      by (simp add: initial_add_weight_def uint64_times_float_def kMutateWeight_def
            kDeletionThreshold_def)
    from lt have c: "initial_delete_weight h = nat \<lfloor>10 ^ 5 * (1 - adjustment h)\<rfloor>"
      by (simp add: initial_delete_weight_def uint64_times_float_def kMutateWeight_def
            kDeletionThreshold_def)
    note d = initial_add_weight_closed [OF lt]
    note e = initial_delete_weight_closed [OF lt]
    have p: "10 ^ 5 * adjustment h = rat_of_nat (3125 * h) / 8"
      by (simp add: a)
    from lt have q: "10 ^ 5 * (1 - adjustment h) = rat_of_nat (3125 * (256 - h)) / 8"
      by (simp add: a algebra_simps)
    have f: "rat_of_nat (initial_add_weight h) = 10 ^ 5 * adjustment h \<longleftrightarrow> 8 dvd h"
      unfolding d p by (rule of_nat_div8_exact)
    note dvd_256_minus [OF lt]
    then have g: "rat_of_nat (initial_delete_weight h) = 10 ^ 5 * (1 - adjustment h) \<longleftrightarrow> 8 dvd h"
      unfolding e q by (simp only: of_nat_div8_exact)
    show ?thesis by (rule conjI a b c d e f g)+
  qed
  show ?thesis
    apply (rule conjI, rule cs(1))
    apply (rule conjI, rule cs(2))
    apply (rule conjI, rule cs(3))
    apply (rule conjI)
     apply (rule impI, erule small)
    apply (rule impI, erule big)
    done
qed

theorem sampler_weights_witness:
  "(1::nat) < 128 \<and> initial_add_weight 1 = 390 \<and> initial_delete_weight 1 = 99609 \<and>
   (8::nat) < 128 \<and> initial_add_weight 8 = 3125 \<and> initial_delete_weight 8 = 96875 \<and>
   (128::nat) \<le> 128 \<and> initial_add_weight 128 = 100000 \<and> initial_delete_weight 128 = 100000"
proof -
  have l1: "(1::nat) < 128" and l8: "(8::nat) < 128" and l128: "(128::nat) \<le> 128" by simp_all
  note s1 = sampler_weights [of 1, THEN conjunct2, THEN conjunct2, THEN conjunct2, THEN conjunct1,
      rule_format, OF l1]
  note s8 = sampler_weights [of 8, THEN conjunct2, THEN conjunct2, THEN conjunct2, THEN conjunct1,
      rule_format, OF l8]
  note s128 = sampler_weights [of 128, THEN conjunct2, THEN conjunct2, THEN conjunct2,
      THEN conjunct2, rule_format, OF l128]
  have a: "initial_add_weight 1 = 3125 * 1 div 8"
    by (rule s1 [THEN conjunct2, THEN conjunct2, THEN conjunct1])
  have b: "initial_delete_weight 1 = 3125 * (256 - 1) div 8"
    by (rule s1 [THEN conjunct2, THEN conjunct2, THEN conjunct2, THEN conjunct2, THEN conjunct1])
  have c: "initial_add_weight 8 = 3125 * 8 div 8"
    by (rule s8 [THEN conjunct2, THEN conjunct2, THEN conjunct1])
  have d: "initial_delete_weight 8 = 3125 * (256 - 8) div 8"
    by (rule s8 [THEN conjunct2, THEN conjunct2, THEN conjunct2, THEN conjunct2, THEN conjunct1])
  have e: "initial_add_weight 128 = 10 ^ 5" by (rule s128 [THEN conjunct1])
  have f: "initial_delete_weight 128 = 10 ^ 5" by (rule s128 [THEN conjunct2])
  show ?thesis unfolding a b c d e f by simp
qed

text \<open>
  The claim as the specification words it (the scaled weight \<^emph>\<open>is\<close> the product) fails at
  hint 1: the product is \<open>390.625\<close>, the weight is 390.
\<close>

theorem sampler_weights_counterexample:
  "rat_of_nat (initial_add_weight 1) \<noteq> 10 ^ 5 * adjustment 1"
proof -
  have "(1::nat) < 128" by simp
  then have "initial_add_weight 1 = 3125 * 1 div 8" by (rule initial_add_weight_closed)
  then have "initial_add_weight 1 = 390" by simp
  then show ?thesis
    by (simp add: adjustment_def kDeletionThreshold_def)
qed

section \<open>Candidates of the mutation sampler\<close>

lemma sampler_Try_simps [simp]:
  "ms_keep_initialized (sampler_Try w fi mu ms) = ms_keep_initialized ms"
  "ms_add_weight (sampler_Try w fi mu ms) = ms_add_weight ms"
  "ms_delete_weight (sampler_Try w fi mu ms) = ms_delete_weight ms"
  "offered (ms_sampler (sampler_Try w fi mu ms))
     = offered (ms_sampler ms) @ [(w, \<lparr>r_field = fi, r_mutation = mu\<rparr>)]"
  by (simp_all add: sampler_Try_def Try_def split: prod.splits)


lemma GetOneofFieldDescriptor_Some:
  assumes "GetOneofFieldDescriptor m oneof = Some g"
  shows "containing_oneof (field m g) = Some oneof" "g < field_count m" "HasField m g"
  using assms by (auto simp: GetOneofFieldDescriptor_def find_Some_iff)


lemma oneof_member_not_required: "containing_oneof f = Some oneof \<Longrightarrow> \<not> is_required f"
  by (auto simp: containing_oneof_def is_required_def split: if_splits)


lemma repeated_not_required: "is_repeated f \<Longrightarrow> \<not> is_required f"
  by (auto simp: is_repeated_def is_required_def)


lemma Sample_candidates_params:
  assumes "Sample_candidates p m i ms = Inr ms'"
  shows "ms_keep_initialized ms' = ms_keep_initialized ms \<and> ms_add_weight ms' = ms_add_weight ms
         \<and> ms_delete_weight ms' = ms_delete_weight ms"
  using assms
  by (auto simp: Sample_candidates_def Let_def split: option.splits if_splits sum.splits prod.splits)


lemma Sample_candidates_offers:
  assumes "Sample_candidates p m i ms = Inr ms'"
  shows "\<exists>new. offered (ms_sampler ms') = offered (ms_sampler ms) @ new \<and>
           (\<forall>(w, r)\<in>set new. ms_keep_initialized ms \<longrightarrow> r_mutation r = Mutation_Delete
               \<longrightarrow> \<not> is_required (fi_descriptor (r_field r)))"
  using assms
  by (auto simp: Sample_candidates_def Let_def FieldInstance_of_def
        dest: GetOneofFieldDescriptor_Some(1) [THEN oneof_member_not_required] repeated_not_required
        split: option.splits if_splits sum.splits prod.splits)


lemma Sample_candidates_targets:
  assumes "Sample_candidates p m j ms = Inr ms'"
    and "k \<in> set (delete_targets (ms_keep_initialized ms) m j)"
  shows "delete_candidate ms p m k \<in> set (offered (ms_sampler ms'))"
proof (cases "containing_oneof (field m j)")
  case None
  show ?thesis
  proof (cases "\<not> is_repeated (field m j) \<and> HasField m j \<and>
                (\<not> is_required (field m j) \<or> \<not> ms_keep_initialized ms)")
    case False
    with None assms(2) show ?thesis by (simp add: delete_targets_def)
  next
    case True
    with None assms(2) have "k = j" by (simp add: delete_targets_def)
    with None True assms(1) show ?thesis
      by (auto simp: Sample_candidates_def Let_def delete_candidate_def)
  qed
next
  case (Some oneof)
  show ?thesis
  proof (cases "index_in_oneof (field m j) = 0")
    case False
    with Some assms(2) show ?thesis by (simp add: delete_targets_def)
  next
    case z: True
    show ?thesis
    proof (cases "GetOneofFieldDescriptor m oneof")
      case None
      with Some z assms(2) show ?thesis by (simp add: delete_targets_def)
    next
      case (Some g)
      with \<open>containing_oneof (field m j) = Some oneof\<close> z assms(2) have kg: "k = g"
        by (simp add: delete_targets_def)
      show ?thesis
      proof (cases "GetRandomIndex (ms_random ms) (length (oneof_fields oneof))")
        case (Inl e)
        with \<open>containing_oneof (field m j) = Some oneof\<close> z assms(1) show ?thesis
          by (simp add: Sample_candidates_def Let_def)
      next
        case (Inr kr)
        obtain r random1 where kr: "kr = (r, random1)" by (cases kr)
        show ?thesis
        proof (cases "oneof_fields oneof ! r < field_count m")
          case False
          with Inr kr \<open>containing_oneof (field m j) = Some oneof\<close> z assms(1) show ?thesis
            by (simp add: Sample_candidates_def Let_def)
        next
          case True
          with Inr kr \<open>containing_oneof (field m j) = Some oneof\<close> z Some kg assms(1) show ?thesis
            by (auto simp: Sample_candidates_def Let_def delete_candidate_def)
        qed
      qed
    qed
  qed
qed

lemma oneofs_okD:
  assumes "oneofs_ok m" "i < field_count m" "containing_oneof (field m i) = Some oneof"
  shows "index_in_oneof (field m i) < length (oneof_fields oneof)"
    and "oneof_fields oneof ! index_in_oneof (field m i) = i"
    and "\<And>k. k < length (oneof_fields oneof) \<Longrightarrow>
           oneof_fields oneof ! k < field_count m \<and>
           containing_oneof (field m (oneof_fields oneof ! k)) = Some oneof \<and>
           index_in_oneof (field m (oneof_fields oneof ! k)) = k"
    and "\<And>k. k < length (oneof_fields oneof) \<Longrightarrow> HasField m i
           \<Longrightarrow> HasField m (oneof_fields oneof ! k) \<Longrightarrow> oneof_fields oneof ! k = i"
proof -
  from assms(1) have "\<forall>i\<in>set [0..<field_count m].
        case containing_oneof (field m i) of
          None \<Rightarrow> True
        | Some oneof \<Rightarrow>
            index_in_oneof (field m i) < length (oneof_fields oneof) \<and>
            oneof_fields oneof ! index_in_oneof (field m i) = i \<and>
            list_all (\<lambda>k.
                oneof_fields oneof ! k < field_count m \<and>
                containing_oneof (field m (oneof_fields oneof ! k)) = Some oneof \<and>
                index_in_oneof (field m (oneof_fields oneof ! k)) = k \<and>
                (if HasField m i \<and> HasField m (oneof_fields oneof ! k)
                 then oneof_fields oneof ! k = i else True))
              [0..<length (oneof_fields oneof)]"
    by (simp only: oneofs_ok_def list_all_iff)
  moreover from assms(2) have "i \<in> set [0..<field_count m]" by simp
  ultimately have raw: "case containing_oneof (field m i) of
          None \<Rightarrow> True
        | Some oneof \<Rightarrow>
            index_in_oneof (field m i) < length (oneof_fields oneof) \<and>
            oneof_fields oneof ! index_in_oneof (field m i) = i \<and>
            list_all (\<lambda>k.
                oneof_fields oneof ! k < field_count m \<and>
                containing_oneof (field m (oneof_fields oneof ! k)) = Some oneof \<and>
                index_in_oneof (field m (oneof_fields oneof ! k)) = k \<and>
                (if HasField m i \<and> HasField m (oneof_fields oneof ! k)
                 then oneof_fields oneof ! k = i else True))
              [0..<length (oneof_fields oneof)]"
    by (rule bspec)
  note abc = raw [unfolded assms(3) option.case list_all_iff]
  note a = abc [THEN conjunct1] and b = abc [THEN conjunct2, THEN conjunct1]
    and c = abc [THEN conjunct2, THEN conjunct2]
  show "index_in_oneof (field m i) < length (oneof_fields oneof)" by (rule a)
  show "oneof_fields oneof ! index_in_oneof (field m i) = i" by (rule b)
  show "oneof_fields oneof ! k < field_count m \<and>
           containing_oneof (field m (oneof_fields oneof ! k)) = Some oneof \<and>
           index_in_oneof (field m (oneof_fields oneof ! k)) = k"
    if "k < length (oneof_fields oneof)" for k
  proof -
    from that have "k \<in> set [0..<length (oneof_fields oneof)]" by simp
    with c show ?thesis by blast
  qed
  show "oneof_fields oneof ! k = i"
    if "k < length (oneof_fields oneof)" "HasField m i" "HasField m (oneof_fields oneof ! k)" for k
  proof -
    from that(1) have "k \<in> set [0..<length (oneof_fields oneof)]" by simp
    with c have "if HasField m i \<and> HasField m (oneof_fields oneof ! k)
                 then oneof_fields oneof ! k = i else True" by blast
    with that(2,3) show ?thesis by simp
  qed
qed

lemma Sample_candidates_total:
  assumes ok: "oneofs_ok m" and j: "j < field_count m"
  shows "\<exists>ms'. Sample_candidates p m j ms = Inr ms'"
proof (cases "containing_oneof (field m j)")
  case None
  show ?thesis
  proof (cases "is_repeated (field m j)")
    case False
    with None show ?thesis by (simp add: Sample_candidates_def Let_def)
  next
    case True
    from GetRandomIndex_range [of "FieldSize m j + 1" "ms_random ms"]
    obtain k random1 where g1: "GetRandomIndex (ms_random ms) (FieldSize m j + 1) = Inr (k, random1)"
      by auto
    let ?ms1 = "sampler_Try (ms_add_weight ms) (FieldInstance_of p m j (Some k)) Mutation_Add
                  (ms\<lparr>ms_random := random1\<rparr>)"
    show ?thesis
    proof (cases "FieldSize m j = 0")
      case z: True
      with None True g1 show ?thesis by (simp add: Sample_candidates_def Let_def)
    next
      case nz: False
      with GetRandomIndex_range [of "FieldSize m j" "ms_random ?ms1"]
      obtain r random2 where "GetRandomIndex (ms_random ?ms1) (FieldSize m j) = Inr (r, random2)"
        by auto
      with None True g1 nz show ?thesis by (simp add: Sample_candidates_def Let_def)
    qed
  qed
next
  case (Some oneof)
  show ?thesis
  proof (cases "index_in_oneof (field m j) = 0")
    case False
    with Some show ?thesis by (simp add: Sample_candidates_def Let_def)
  next
    case True
    from oneofs_okD(1) [OF ok j Some] have pos: "0 < length (oneof_fields oneof)"
      by (rule le_less_trans [OF le0])
    from GetRandomIndex_range [OF pos, of "ms_random ms"]
    obtain k random1 where g: "GetRandomIndex (ms_random ms) (length (oneof_fields oneof)) = Inr (k, random1)"
      and k: "k < length (oneof_fields oneof)" by auto
    from oneofs_okD(3) [OF ok j Some k] have "oneof_fields oneof ! k < field_count m" by simp
    with Some True g show ?thesis
      by (simp add: Sample_candidates_def Let_def split: option.splits)
  qed
qed

lemma set_member_target:
  assumes ok: "oneofs_ok c" and i: "i < field_count c"
    and s: "\<not> is_repeated (field c i)" "HasField c i"
    and d: "containing_oneof (field c i) \<noteq> None \<or> \<not> is_required (field c i) \<or> \<not> keep"
  shows "\<exists>j<field_count c. i \<in> set (delete_targets keep c j)"
proof (cases "containing_oneof (field c i)")
  case None
  with s d have "i \<in> set (delete_targets keep c i)" by (simp add: delete_targets_def)
  with i show ?thesis by blast
next
  case (Some oneof)
  let ?xs = "oneof_fields oneof"
  let ?n = "index_in_oneof (field c i)"
  note n = oneofs_okD(1) [OF ok i Some] and xi = oneofs_okD(2) [OF ok i Some]
  from n have z: "0 < length ?xs" by (rule le_less_trans [OF le0])
  from oneofs_okD(3) [OF ok i Some z]
  have j0: "?xs ! 0 < field_count c" and c0: "containing_oneof (field c (?xs ! 0)) = Some oneof"
    and i0: "index_in_oneof (field c (?xs ! 0)) = 0" by simp_all
  have before: "\<not> (?xs ! m < field_count c \<and> containing_oneof (field c (?xs ! m)) = Some oneof
                    \<and> HasField c (?xs ! m))" if m: "m < ?n" for m
  proof
    assume a: "?xs ! m < field_count c \<and> containing_oneof (field c (?xs ! m)) = Some oneof
                    \<and> HasField c (?xs ! m)"
    from m n have ml: "m < length ?xs" by simp
    from oneofs_okD(4) [OF ok i Some ml s(2)] a have e: "?xs ! m = i" by simp
    from oneofs_okD(3) [OF ok i Some ml] have "index_in_oneof (field c (?xs ! m)) = m" by simp
    with e m show False by simp
  qed
  have "GetOneofFieldDescriptor c oneof = Some i"
    unfolding GetOneofFieldDescriptor_def find_Some_iff
    using n xi i Some s(2) before by (intro exI [of _ ?n]) simp
  with c0 i0 have "i \<in> set (delete_targets keep c (?xs ! 0))" by (simp add: delete_targets_def)
  with j0 show ?thesis by blast
qed

lemma sampler_extends_refl: "sampler_extends ms ms"
  by (simp add: sampler_extends_def)


lemma sampler_extends_trans:
  "sampler_extends a b \<Longrightarrow> sampler_extends b c \<Longrightarrow> sampler_extends a c"
  unfolding sampler_extends_def by (elim conjE exE) (auto simp: ball_Un)


lemma sampler_extends_mono:
  "sampler_extends a b \<Longrightarrow> x \<in> set (offered (ms_sampler a)) \<Longrightarrow> x \<in> set (offered (ms_sampler b))"
  unfolding sampler_extends_def by auto


lemma Sample_candidates_extends:
  "Sample_candidates p m i ms = Inr ms' \<Longrightarrow> sampler_extends ms ms'"
  unfolding sampler_extends_def
  using Sample_candidates_params [of p m i ms ms'] Sample_candidates_offers [of p m i ms ms']
  by blast


lemma targets_offered_Nil: "targets_offered ms [] ms'"
  by (simp add: targets_offered_def)

lemma targets_offered_append:
  "targets_offered ms (L1 @ L2) ms' \<longleftrightarrow> targets_offered ms L1 ms' \<and> targets_offered ms L2 ms'"
  unfolding targets_offered_def set_append ball_Un by (rule refl)

lemma targets_offered_mono:
  "targets_offered ms L a \<Longrightarrow> sampler_extends a b \<Longrightarrow> targets_offered ms L b"
  unfolding targets_offered_def by (blast intro: sampler_extends_mono)

lemma targets_offered_params:
  "sampler_extends ms a \<Longrightarrow> targets_offered a L b = targets_offered ms L b"
  by (simp add: targets_offered_def sampler_extends_def delete_candidate_def)

lemma Sample_extends:
  shows "\<forall>ms'. Sample p m ms = Inr ms' \<longrightarrow> sampler_extends ms ms'"
    and "\<forall>ms'. Sample_fields p m i rest ms = Inr ms' \<longrightarrow> sampler_extends ms ms'"
    and "\<forall>ms'. Sample_elements p i j vs ms = Inr ms' \<longrightarrow> sampler_extends ms ms'"
proof (induction p m ms and p m i rest ms and p i j vs ms
       rule: Sample_Sample_fields_Sample_elements.induct)
  case (1 p t es ms)
  then show ?case by simp
next
  case (2 p message i ms)
  show ?case by (simp add: sampler_extends_refl)
next
  case (3 p message i f vs rest ms)
  show ?case
  proof (intro allI impI)
    fix ms'
    assume s: "Sample_fields p message i ((f, vs) # rest) ms = Inr ms'"
    from s obtain ms1 where c: "Sample_candidates p message i ms = Inr ms1"
      by (auto split: sum.splits)
    let ?mid = "(if cpp_type f = CPPTYPE_MESSAGE
                 then (if is_repeated f then Sample_elements p i 0 vs ms1
                       else (case vs of [] \<Rightarrow> Inr ms1 | v # _ \<Rightarrow> Sample_elements p i 0 [v] ms1))
                 else Inr ms1)"
    from s c obtain ms2 where m: "?mid = Inr ms2"
      and r: "Sample_fields p message (Suc i) rest ms2 = Inr ms'"
      by (auto split: sum.splits)
    note e1 = Sample_candidates_extends [OF c]
    have e2: "sampler_extends ms1 ms2"
    proof (cases "cpp_type f = CPPTYPE_MESSAGE")
      case False
      with m show ?thesis by (simp add: sampler_extends_refl)
    next
      case msg: True
      show ?thesis
      proof (cases "is_repeated f")
        case True
        with msg m "3.IH"(1) [OF c msg True] show ?thesis by simp
      next
        case False
        show ?thesis
        proof (cases vs)
          case Nil
          with msg False m show ?thesis by (simp add: sampler_extends_refl)
        next
          case (Cons v vs')
          with msg False m "3.IH"(2) [OF c msg False Cons] show ?thesis by simp
        qed
      qed
    qed
    from "3.IH"(3) [OF c m] r have e3: "sampler_extends ms2 ms'" by simp
    from e1 e2 have "sampler_extends ms ms2" by (rule sampler_extends_trans)
    then show "sampler_extends ms ms'" using e3 by (rule sampler_extends_trans)
  qed
next
  case (4 p i j ms)
  show ?case by (simp add: sampler_extends_refl)
next
  case (5 p i j v rest ms)
  show ?case
  proof (intro allI impI)
    fix ms' assume s: "Sample_elements p i j (v # rest) ms = Inr ms'"
    then obtain sub where v: "v = VMessage sub" by (cases v) auto
    with s obtain ms1 where a: "Sample (p @ [(i, j)]) sub ms = Inr ms1"
      and b: "Sample_elements p i (Suc j) rest ms1 = Inr ms'"
      by (auto split: sum.splits)
    from "5.IH"(1) [OF v] a have e1: "sampler_extends ms ms1" by simp
    from "5.IH"(2) [OF v a] b have e2: "sampler_extends ms1 ms'" by simp
    from e1 e2 show "sampler_extends ms ms'" by (rule sampler_extends_trans)
  qed
qed

lemma Sample_returns:
  shows "well_formed m \<longrightarrow>
           (\<exists>ms'. Sample p m ms = Inr ms' \<and> sampler_extends ms ms' \<and>
                  targets_offered ms (submessages p m) ms')"
    and "rest = drop i (entries m) \<longrightarrow> oneofs_ok m \<longrightarrow> well_formed_fields rest \<longrightarrow>
           (\<exists>ms'. Sample_fields p m i rest ms = Inr ms' \<and> sampler_extends ms ms' \<and>
                  (\<forall>j. i \<le> j \<and> j < field_count m \<longrightarrow>
                      (\<forall>k\<in>set (delete_targets (ms_keep_initialized ms) m j).
                          delete_candidate ms p m k \<in> set (offered (ms_sampler ms')))) \<and>
                  targets_offered ms (submessages_fields p i rest) ms')"
    and "well_formed_elements vs \<longrightarrow>
           (\<exists>ms'. Sample_elements p i j vs ms = Inr ms' \<and> sampler_extends ms ms' \<and>
                  targets_offered ms (submessages_elements p i j vs) ms')"
proof (induction p m ms and p m i rest ms and p i j vs ms
       rule: Sample_Sample_fields_Sample_elements.induct)
  case (1 p t es ms)
  show ?case
  proof
    assume wf: "well_formed (Message t es)"
    then have ok: "oneofs_ok (Message t es)" and wff: "well_formed_fields es" by simp_all
    have "es = drop 0 (entries (Message t es))" by simp
    with 1 ok wff obtain ms' where s: "Sample_fields p (Message t es) 0 es ms = Inr ms'"
      and e: "sampler_extends ms ms'"
      and b: "\<forall>j. 0 \<le> j \<and> j < field_count (Message t es) \<longrightarrow>
                      (\<forall>k\<in>set (delete_targets (ms_keep_initialized ms) (Message t es) j).
                          delete_candidate ms p (Message t es) k \<in> set (offered (ms_sampler ms')))"
      and c: "targets_offered ms (submessages_fields p 0 es) ms'"
      by blast
    from b c have "targets_offered ms (submessages p (Message t es)) ms'"
      by (auto simp: targets_offered_def)
    with s e show "\<exists>ms'. Sample p (Message t es) ms = Inr ms' \<and> sampler_extends ms ms' \<and>
                  targets_offered ms (submessages p (Message t es)) ms'"
      by simp
  qed
next
  case (2 p message i ms)
  show ?case
  proof (intro impI)
    assume d: "[] = drop i (entries message)"
    then have "field_count message \<le> i" by (simp add: field_count_def)
    then show "\<exists>ms'. Sample_fields p message i [] ms = Inr ms' \<and> sampler_extends ms ms' \<and>
                  (\<forall>j. i \<le> j \<and> j < field_count message \<longrightarrow>
                      (\<forall>k\<in>set (delete_targets (ms_keep_initialized ms) message j).
                          delete_candidate ms p message k \<in> set (offered (ms_sampler ms')))) \<and>
                  targets_offered ms (submessages_fields p i []) ms'"
      by (auto simp: sampler_extends_refl targets_offered_Nil)
  qed
next
  case (3 p message i f vs rest ms)
  show ?case
  proof (intro impI)
    assume d: "(f, vs) # rest = drop i (entries message)"
      and ok: "oneofs_ok message" and wf: "well_formed_fields ((f, vs) # rest)"
    from d have i: "i < length (entries message)"
      by (metis drop_eq_Nil list.distinct(1) not_le)
    from d have d': "rest = drop (Suc i) (entries message)"
      by (metis drop_Suc tl_drop list.sel(3))
    from wf have wfr: "well_formed_fields rest"
      and wfe: "cpp_type f = CPPTYPE_MESSAGE \<Longrightarrow> well_formed_elements vs" by simp_all
    from i have "i < field_count message" by (simp add: field_count_def)
    from Sample_candidates_total [OF ok this, of p ms]
    obtain ms1 where c: "Sample_candidates p message i ms = Inr ms1" by blast
    let ?mid = "\<lambda>ms1. (if cpp_type f = CPPTYPE_MESSAGE
                 then (if is_repeated f then Sample_elements p i 0 vs ms1
                       else (case vs of [] \<Rightarrow> Inr ms1 | v # _ \<Rightarrow> Sample_elements p i 0 [v] ms1))
                 else Inr ms1)"
    let ?subs = "(if cpp_type f = CPPTYPE_MESSAGE
      then (if is_repeated f then submessages_elements p i 0 vs
            else (case vs of [] \<Rightarrow> [] | v # _ \<Rightarrow> submessages_elements p i 0 [v]))
      else [])"
    note e1 = Sample_candidates_extends [OF c]
    have "\<exists>ms2. ?mid ms1 = Inr ms2 \<and> sampler_extends ms1 ms2 \<and> targets_offered ms1 ?subs ms2"
    proof (cases "cpp_type f = CPPTYPE_MESSAGE")
      case False
      then show ?thesis by (simp add: sampler_extends_refl targets_offered_Nil)
    next
      case msg: True
      show ?thesis
      proof (cases "is_repeated f")
        case True
        with msg wfe "3.IH"(1) [OF c msg True] show ?thesis by simp
      next
        case False
        show ?thesis
        proof (cases vs)
          case Nil
          with msg False show ?thesis by (simp add: sampler_extends_refl targets_offered_Nil)
        next
          case (Cons v vs')
          with msg wfe have "well_formed_elements [v]" by simp
          with msg False Cons "3.IH"(2) [OF c msg False Cons] show ?thesis by simp
        qed
      qed
    qed
    then obtain ms2 where m: "?mid ms1 = Inr ms2" and e2: "sampler_extends ms1 ms2"
      and s2: "targets_offered ms1 ?subs ms2" by blast
    from "3.IH"(3) [OF c m] d' ok wfr
    obtain ms' where r: "Sample_fields p message (Suc i) rest ms2 = Inr ms'"
      and e3: "sampler_extends ms2 ms'"
      and k3: "\<forall>j. Suc i \<le> j \<and> j < field_count message \<longrightarrow>
                      (\<forall>k\<in>set (delete_targets (ms_keep_initialized ms2) message j).
                          delete_candidate ms2 p message k \<in> set (offered (ms_sampler ms')))"
      and s3: "targets_offered ms2 (submessages_fields p (Suc i) rest) ms'"
      by blast
    from c m r have res: "Sample_fields p message i ((f, vs) # rest) ms = Inr ms'" by simp
    from e1 e2 have e12: "sampler_extends ms ms2" by (rule sampler_extends_trans)
    from e12 e3 have e: "sampler_extends ms ms'" by (rule sampler_extends_trans)
    from e2 e3 have e23: "sampler_extends ms1 ms'" by (rule sampler_extends_trans)
    have p2: "ms_keep_initialized ms2 = ms_keep_initialized ms" "ms_delete_weight ms2 = ms_delete_weight ms"
      using e12 by (simp_all add: sampler_extends_def)
    have fields: "\<forall>j. i \<le> j \<and> j < field_count message \<longrightarrow>
                      (\<forall>k\<in>set (delete_targets (ms_keep_initialized ms) message j).
                          delete_candidate ms p message k \<in> set (offered (ms_sampler ms')))"
    proof (intro allI impI ballI)
      fix j k assume j: "i \<le> j \<and> j < field_count message"
        and k: "k \<in> set (delete_targets (ms_keep_initialized ms) message j)"
      show "delete_candidate ms p message k \<in> set (offered (ms_sampler ms'))"
      proof (cases "j = i")
        case True
        with k Sample_candidates_targets [OF c]
        have "delete_candidate ms p message k \<in> set (offered (ms_sampler ms1))" by simp
        with e23 show ?thesis by (rule sampler_extends_mono)
      next
        case False
        with j have "Suc i \<le> j \<and> j < field_count message" by simp
        with k k3 p2 show ?thesis by (simp add: delete_candidate_def)
      qed
    qed
    from s2 e3 have "targets_offered ms1 ?subs ms'" by (rule targets_offered_mono)
    then have t2: "targets_offered ms ?subs ms'" by (simp only: targets_offered_params [OF e1])
    from s3 have t3: "targets_offered ms (submessages_fields p (Suc i) rest) ms'"
      by (simp only: targets_offered_params [OF e12])
    from t2 t3 have "targets_offered ms (submessages_fields p i ((f, vs) # rest)) ms'"
      by (simp only: submessages_fields.simps targets_offered_append)
    with res e fields
    show "\<exists>ms'. Sample_fields p message i ((f, vs) # rest) ms = Inr ms' \<and> sampler_extends ms ms' \<and>
                  (\<forall>j. i \<le> j \<and> j < field_count message \<longrightarrow>
                      (\<forall>k\<in>set (delete_targets (ms_keep_initialized ms) message j).
                          delete_candidate ms p message k \<in> set (offered (ms_sampler ms')))) \<and>
                  targets_offered ms (submessages_fields p i ((f, vs) # rest)) ms'"
      by blast
  qed
next
  case (4 p i j ms)
  show ?case by (simp add: sampler_extends_refl targets_offered_Nil)
next
  case (5 p i j v rest ms)
  show ?case
  proof
    assume wf: "well_formed_elements (v # rest)"
    then obtain sub where v: "v = VMessage sub" by (cases v) auto
    with wf have wfs: "well_formed sub" and wfr: "well_formed_elements rest" by simp_all
    from "5.IH"(1) [OF v] wfs obtain ms1 where a: "Sample (p @ [(i, j)]) sub ms = Inr ms1"
      and e1: "sampler_extends ms ms1"
      and s1: "targets_offered ms (submessages (p @ [(i, j)]) sub) ms1" by blast
    from "5.IH"(2) [OF v a] wfr obtain ms' where b: "Sample_elements p i (Suc j) rest ms1 = Inr ms'"
      and e2: "sampler_extends ms1 ms'"
      and s2: "targets_offered ms1 (submessages_elements p i (Suc j) rest) ms'" by blast
    from v a b have res: "Sample_elements p i j (v # rest) ms = Inr ms'" by simp
    from e1 e2 have e: "sampler_extends ms ms'" by (rule sampler_extends_trans)
    from s1 e2 have s1': "targets_offered ms (submessages (p @ [(i, j)]) sub) ms'"
      by (rule targets_offered_mono)
    from s2 have s2': "targets_offered ms (submessages_elements p i (Suc j) rest) ms'"
      by (simp only: targets_offered_params [OF e1])
    from s1' s2' v have "targets_offered ms (submessages_elements p i j (v # rest)) ms'"
      by (simp add: targets_offered_append)
    with res e
    show "\<exists>ms'. Sample_elements p i j (v # rest) ms = Inr ms' \<and> sampler_extends ms ms' \<and>
                  targets_offered ms (submessages_elements p i j (v # rest)) ms'"
      by blast
  qed
qed

lemma submessages_well_formed:
  shows "well_formed m \<longrightarrow> (\<forall>(q, c)\<in>set (submessages p m). oneofs_ok c)"
    and "well_formed_fields es \<longrightarrow> (\<forall>(q, c)\<in>set (submessages_fields p i es). oneofs_ok c)"
    and "well_formed_elements vs \<longrightarrow> (\<forall>(q, c)\<in>set (submessages_elements p i j vs). oneofs_ok c)"
proof (induction p m and p i es and p i j vs
       rule: submessages_submessages_fields_submessages_elements.induct)
  case (1 p t es)
  then show ?case by simp
next
  case (2 p i)
  show ?case by simp
next
  case (3 p i f vs rest)
  show ?case
  proof
    assume wf: "well_formed_fields ((f, vs) # rest)"
    then have r: "\<forall>(q, c)\<in>set (submessages_fields p (Suc i) rest). oneofs_ok c"
      using 3 by simp
    have "\<forall>(q, c)\<in>set (if cpp_type f = CPPTYPE_MESSAGE
      then (if is_repeated f then submessages_elements p i 0 vs
            else (case vs of [] \<Rightarrow> [] | v # _ \<Rightarrow> submessages_elements p i 0 [v]))
      else []). oneofs_ok c"
    proof (cases "cpp_type f = CPPTYPE_MESSAGE")
      case False
      then show ?thesis by simp
    next
      case msg: True
      with wf have wfe: "well_formed_elements vs" by simp
      show ?thesis
      proof (cases "is_repeated f")
        case True
        with msg wfe "3.IH"(1) [OF msg True] show ?thesis by simp
      next
        case False
        show ?thesis
        proof (cases vs)
          case Nil
          with msg False show ?thesis by simp
        next
          case (Cons v vs')
          with wfe have "well_formed_elements [v]" by simp
          with msg False Cons "3.IH"(2) [OF msg False Cons] show ?thesis by simp
        qed
      qed
    qed
    with r show "\<forall>(q, c)\<in>set (submessages_fields p i ((f, vs) # rest)). oneofs_ok c"
      by (simp only: submessages_fields.simps set_append ball_Un)
  qed
next
  case (4 p i j)
  show ?case by simp
next
  case (5 p i j v rest)
  show ?case
  proof
    assume wf: "well_formed_elements (v # rest)"
    then obtain sub where v: "v = VMessage sub" by (cases v) auto
    with wf 5 show "\<forall>(q, c)\<in>set (submessages_elements p i j (v # rest)). oneofs_ok c"
      by (auto simp: ball_Un)
  qed
qed


text \<open>
  C6.  The traversal of the mutation sampler starts from a sampler that has been offered
  nothing.  With \<open>keep_initialized\<close> on, no candidate it offers, on any message, is a
  \<open>Delete\<close> of a required field.  On every well-formed message the traversal returns, and,
  for every message of the tree and every set singular field of it, the \<open>Delete\<close> of that
  field has been offered with the delete weight, unless the field is required and
  \<open>keep_initialized\<close> is on: a member of a oneof (never required) is offered in either mode,
  and with \<open>keep_initialized\<close> off so is a required field.
\<close>

theorem Sample_delete_candidates:
  assumes "offered (ms_sampler ms) = []"
  shows "(\<forall>ms'. Sample [] message ms = Inr ms' \<and> ms_keep_initialized ms \<longrightarrow>
            (\<forall>(w, r)\<in>set (offered (ms_sampler ms')).
                r_mutation r = Mutation_Delete \<longrightarrow> \<not> is_required (fi_descriptor (r_field r)))) \<and>
         (well_formed message \<longrightarrow>
            (\<exists>ms'. Sample [] message ms = Inr ms' \<and>
               (\<forall>(q, c)\<in>set (submessages [] message). \<forall>i<field_count c.
                   \<not> is_repeated (field c i) \<and> HasField c i \<and>
                   (containing_oneof (field c i) \<noteq> None \<or> \<not> is_required (field c i)
                    \<or> \<not> ms_keep_initialized ms)
                   \<longrightarrow> (ms_delete_weight ms,
                         \<lparr>r_field = FieldInstance_of q c i None, r_mutation = Mutation_Delete\<rparr>)
                        \<in> set (offered (ms_sampler ms')))))"
proof (rule conjI)
  show "\<forall>ms'. Sample [] message ms = Inr ms' \<and> ms_keep_initialized ms \<longrightarrow>
            (\<forall>(w, r)\<in>set (offered (ms_sampler ms')).
                r_mutation r = Mutation_Delete \<longrightarrow> \<not> is_required (fi_descriptor (r_field r)))"
  proof (intro allI impI)
    fix ms' assume a: "Sample [] message ms = Inr ms' \<and> ms_keep_initialized ms"
    with Sample_extends(1) [of "[]" message ms] have "sampler_extends ms ms'" by simp
    with a assms show "\<forall>(w, r)\<in>set (offered (ms_sampler ms')).
                r_mutation r = Mutation_Delete \<longrightarrow> \<not> is_required (fi_descriptor (r_field r))"
      by (auto simp: sampler_extends_def)
  qed
next
  show "well_formed message \<longrightarrow>
            (\<exists>ms'. Sample [] message ms = Inr ms' \<and>
               (\<forall>(q, c)\<in>set (submessages [] message). \<forall>i<field_count c.
                   \<not> is_repeated (field c i) \<and> HasField c i \<and>
                   (containing_oneof (field c i) \<noteq> None \<or> \<not> is_required (field c i)
                    \<or> \<not> ms_keep_initialized ms)
                   \<longrightarrow> (ms_delete_weight ms,
                         \<lparr>r_field = FieldInstance_of q c i None, r_mutation = Mutation_Delete\<rparr>)
                        \<in> set (offered (ms_sampler ms'))))"
  proof
    assume wf: "well_formed message"
    with Sample_returns(1) [of message "[]" ms] obtain ms'
      where s: "Sample [] message ms = Inr ms'"
        and t: "targets_offered ms (submessages [] message) ms'" by blast
    have "\<forall>(q, c)\<in>set (submessages [] message). \<forall>i<field_count c.
                   \<not> is_repeated (field c i) \<and> HasField c i \<and>
                   (containing_oneof (field c i) \<noteq> None \<or> \<not> is_required (field c i)
                    \<or> \<not> ms_keep_initialized ms)
                   \<longrightarrow> (ms_delete_weight ms,
                         \<lparr>r_field = FieldInstance_of q c i None, r_mutation = Mutation_Delete\<rparr>)
                        \<in> set (offered (ms_sampler ms'))"
    proof (intro ballI, clarify)
      fix q c i
      assume qc: "(q, c) \<in> set (submessages [] message)" and i: "i < field_count c"
        and nr: "\<not> is_repeated (field c i)" and h: "HasField c i"
        and d: "containing_oneof (field c i) \<noteq> None \<or> \<not> is_required (field c i)
                    \<or> \<not> ms_keep_initialized ms"
      from submessages_well_formed(1) [of message "[]"] wf qc have ok: "oneofs_ok c" by blast
      from set_member_target [OF ok i nr h d] obtain j
        where j: "j < field_count c" and k: "i \<in> set (delete_targets (ms_keep_initialized ms) c j)"
        by blast
      from t qc j k have "delete_candidate ms q c i \<in> set (offered (ms_sampler ms'))"
        unfolding targets_offered_def by blast
      then show "(ms_delete_weight ms,
                   \<lparr>r_field = FieldInstance_of q c i None, r_mutation = Mutation_Delete\<rparr>)
                  \<in> set (offered (ms_sampler ms'))"
        by (simp add: delete_candidate_def)
    qed
    with s show "\<exists>ms'. Sample [] message ms = Inr ms' \<and>
               (\<forall>(q, c)\<in>set (submessages [] message). \<forall>i<field_count c.
                   \<not> is_repeated (field c i) \<and> HasField c i \<and>
                   (containing_oneof (field c i) \<noteq> None \<or> \<not> is_required (field c i)
                    \<or> \<not> ms_keep_initialized ms)
                   \<longrightarrow> (ms_delete_weight ms,
                         \<lparr>r_field = FieldInstance_of q c i None, r_mutation = Mutation_Delete\<rparr>)
                        \<in> set (offered (ms_sampler ms')))"
      by blast
  qed
qed


lemma example_fields [simp]:
  "cpp_type example_a = CPPTYPE_INT32" "cpp_type example_b = CPPTYPE_STRING"
  "cpp_type example_c = CPPTYPE_INT32"
  "label example_a = LABEL_REQUIRED" "label example_b = LABEL_OPTIONAL"
  "label example_c = LABEL_REPEATED"
  "oneof_decl example_a = None" "oneof_decl example_b = None" "oneof_decl example_c = None"
  by (simp_all add: example_a_def example_b_def example_c_def)


lemmas sampler_eval =
  Sample_candidates_def field_def containing_oneof_def is_repeated_def is_required_def HasField_def
  field_values_def FieldSize_def field_count_def sampler_Try_def Try_def uniform_int_distribution_def
  GetRandomIndex_def FieldInstance_of_def GetCopyWeight_def kMutateWeight_def
  WeightedReservoirSampler_new_def Let_def


lemma example_nested_fields [simp]:
  "cpp_type example_child = CPPTYPE_MESSAGE" "cpp_type example_x = CPPTYPE_INT32"
  "cpp_type example_y = CPPTYPE_STRING"
  "label example_child = LABEL_OPTIONAL" "label example_x = LABEL_OPTIONAL"
  "label example_y = LABEL_OPTIONAL"
  "oneof_decl example_child = None" "oneof_decl example_x = Some example_choice"
  "oneof_decl example_y = Some example_choice"
  "index_in_oneof example_x = 0" "index_in_oneof example_y = 1"
  "oneof_fields example_choice = [1, 2]"
  by (simp_all add: example_child_def example_x_def example_y_def example_choice_def)

lemma example_N_well_formed:
  "well_formed (example_N [VMessage (example_M [VInt32 5] [] [])] [] [VString [104]])"
  by (simp add: example_N_def example_M_def oneofs_ok_def field_count_def field_def
        containing_oneof_def HasField_def field_values_def upt_rec [of 0] upt_rec [of 1]
        upt_rec [of 2] upt_rec [of 3])

lemma draws_mod_two: "(2::nat) mod Suc (Suc 0) = 0" "(6::nat) mod Suc (Suc 0) = 0"
  by (simp_all add: numeral_2_eq_2 [symmetric])

lemma Sample_nested_on:
  "\<exists>ms'. Sample [] (example_N [VMessage (example_M [VInt32 5] [] [])] [] [VString [104]])
      \<lparr>ms_keep_initialized = True, ms_add_weight = 25000, ms_delete_weight = 75000,
       ms_random = [3, 1, 4, 1, 5, 9, 2, 6], ms_sampler = WeightedReservoirSampler_new\<rparr> = Inr ms' \<and>
    offers_at ms' =
      [(75000, [], 0, Mutation_Delete), (25000, [], 0, Mutation_Copy),
       (1000000, [(0, 0)], 0, Mutation_Mutate), (1000000, [(0, 0)], 0, Mutation_Copy),
       (25000, [(0, 0)], 1, Mutation_Add), (25000, [(0, 0)], 2, Mutation_Add),
       (25000, [], 1, Mutation_Add), (1000000, [], 2, Mutation_Mutate),
       (75000, [], 2, Mutation_Delete), (1000000, [], 2, Mutation_Copy)]"
  by (simp add: example_N_def example_M_def sampler_eval offers_at_def GetOneofFieldDescriptor_def
        draws_mod_two)

lemma Sample_nested_off:
  "\<exists>ms'. Sample [] (example_N [VMessage (example_M [VInt32 5] [] [])] [] [VString [104]])
      \<lparr>ms_keep_initialized = False, ms_add_weight = 25000, ms_delete_weight = 75000,
       ms_random = [3, 1, 4, 1, 5, 9, 2, 6], ms_sampler = WeightedReservoirSampler_new\<rparr> = Inr ms' \<and>
    offers_at ms' =
      [(75000, [], 0, Mutation_Delete), (25000, [], 0, Mutation_Copy),
       (1000000, [(0, 0)], 0, Mutation_Mutate), (75000, [(0, 0)], 0, Mutation_Delete),
       (1000000, [(0, 0)], 0, Mutation_Copy),
       (25000, [(0, 0)], 1, Mutation_Add), (25000, [(0, 0)], 2, Mutation_Add),
       (25000, [], 1, Mutation_Add), (1000000, [], 2, Mutation_Mutate),
       (75000, [], 2, Mutation_Delete), (1000000, [], 2, Mutation_Copy)]"
  by (simp add: example_N_def example_M_def sampler_eval offers_at_def GetOneofFieldDescriptor_def
        draws_mod_two)

theorem Sample_delete_candidates_witness:
  "well_formed (example_N [VMessage (example_M [VInt32 5] [] [])] [] [VString [104]]) \<and>
   (\<exists>ms'. Sample [] (example_N [VMessage (example_M [VInt32 5] [] [])] [] [VString [104]])
            \<lparr>ms_keep_initialized = True, ms_add_weight = 25000, ms_delete_weight = 75000,
             ms_random = [3, 1, 4, 1, 5, 9, 2, 6], ms_sampler = WeightedReservoirSampler_new\<rparr>
           = Inr ms' \<and>
          offers_at ms' =
            [(75000, [], 0, Mutation_Delete), (25000, [], 0, Mutation_Copy),
             (1000000, [(0, 0)], 0, Mutation_Mutate), (1000000, [(0, 0)], 0, Mutation_Copy),
             (25000, [(0, 0)], 1, Mutation_Add), (25000, [(0, 0)], 2, Mutation_Add),
             (25000, [], 1, Mutation_Add), (1000000, [], 2, Mutation_Mutate),
             (75000, [], 2, Mutation_Delete), (1000000, [], 2, Mutation_Copy)] \<and>
          (\<forall>(w, r)\<in>set (offered (ms_sampler ms')).
              r_mutation r = Mutation_Delete \<longrightarrow> \<not> is_required (fi_descriptor (r_field r)))) \<and>
   (\<exists>ms'. Sample [] (example_N [VMessage (example_M [VInt32 5] [] [])] [] [VString [104]])
            \<lparr>ms_keep_initialized = False, ms_add_weight = 25000, ms_delete_weight = 75000,
             ms_random = [3, 1, 4, 1, 5, 9, 2, 6], ms_sampler = WeightedReservoirSampler_new\<rparr>
           = Inr ms' \<and>
          offers_at ms' =
            [(75000, [], 0, Mutation_Delete), (25000, [], 0, Mutation_Copy),
             (1000000, [(0, 0)], 0, Mutation_Mutate), (75000, [(0, 0)], 0, Mutation_Delete),
             (1000000, [(0, 0)], 0, Mutation_Copy),
             (25000, [(0, 0)], 1, Mutation_Add), (25000, [(0, 0)], 2, Mutation_Add),
             (25000, [], 1, Mutation_Add), (1000000, [], 2, Mutation_Mutate),
             (75000, [], 2, Mutation_Delete), (1000000, [], 2, Mutation_Copy)] \<and>
          (75000, \<lparr>r_field = FieldInstance_of [(0, 0)] (example_M [VInt32 5] [] []) 0 None,
                    r_mutation = Mutation_Delete\<rparr>) \<in> set (offered (ms_sampler ms')) \<and>
          (75000, \<lparr>r_field = FieldInstance_of []
                       (example_N [VMessage (example_M [VInt32 5] [] [])] [] [VString [104]]) 0 None,
                    r_mutation = Mutation_Delete\<rparr>) \<in> set (offered (ms_sampler ms')) \<and>
          (75000, \<lparr>r_field = FieldInstance_of []
                       (example_N [VMessage (example_M [VInt32 5] [] [])] [] [VString [104]]) 2 None,
                    r_mutation = Mutation_Delete\<rparr>) \<in> set (offered (ms_sampler ms')))"
proof -
  let ?M = "example_M [VInt32 5] [] []"
  let ?N = "example_N [VMessage ?M] [] [VString [104]]"
  let ?on = "\<lparr>ms_keep_initialized = True, ms_add_weight = 25000, ms_delete_weight = 75000,
             ms_random = [3, 1, 4, 1, 5, 9, 2, 6], ms_sampler = WeightedReservoirSampler_new\<rparr>"
  let ?off = "\<lparr>ms_keep_initialized = False, ms_add_weight = 25000, ms_delete_weight = 75000,
             ms_random = [3, 1, 4, 1, 5, 9, 2, 6], ms_sampler = WeightedReservoirSampler_new\<rparr>"
  note wf = example_N_well_formed
  have e: "offered (ms_sampler ?on) = []" "offered (ms_sampler ?off) = []"
    by (simp_all add: WeightedReservoirSampler_new_def)
  from Sample_nested_on obtain ms1 where s1: "Sample [] ?N ?on = Inr ms1"
    and o1: "offers_at ms1 =
            [(75000, [], 0, Mutation_Delete), (25000, [], 0, Mutation_Copy),
             (1000000, [(0, 0)], 0, Mutation_Mutate), (1000000, [(0, 0)], 0, Mutation_Copy),
             (25000, [(0, 0)], 1, Mutation_Add), (25000, [(0, 0)], 2, Mutation_Add),
             (25000, [], 1, Mutation_Add), (1000000, [], 2, Mutation_Mutate),
             (75000, [], 2, Mutation_Delete), (1000000, [], 2, Mutation_Copy)]"
    by blast
  from Sample_delete_candidates [OF e(1), of ?N, THEN conjunct1] s1
  have a: "\<forall>(w, r)\<in>set (offered (ms_sampler ms1)).
              r_mutation r = Mutation_Delete \<longrightarrow> \<not> is_required (fi_descriptor (r_field r))"
    by simp
  from Sample_nested_off obtain ms2 where s2: "Sample [] ?N ?off = Inr ms2"
    and o2: "offers_at ms2 =
            [(75000, [], 0, Mutation_Delete), (25000, [], 0, Mutation_Copy),
             (1000000, [(0, 0)], 0, Mutation_Mutate), (75000, [(0, 0)], 0, Mutation_Delete),
             (1000000, [(0, 0)], 0, Mutation_Copy),
             (25000, [(0, 0)], 1, Mutation_Add), (25000, [(0, 0)], 2, Mutation_Add),
             (25000, [], 1, Mutation_Add), (1000000, [], 2, Mutation_Mutate),
             (75000, [], 2, Mutation_Delete), (1000000, [], 2, Mutation_Copy)]"
    by blast
  from Sample_delete_candidates [OF e(2), of ?N, THEN conjunct2, rule_format, OF wf] s2
  have all: "\<forall>(q, c)\<in>set (submessages [] ?N). \<forall>i<field_count c.
                   \<not> is_repeated (field c i) \<and> HasField c i \<and>
                   (containing_oneof (field c i) \<noteq> None \<or> \<not> is_required (field c i)
                    \<or> \<not> ms_keep_initialized ?off)
                   \<longrightarrow> (ms_delete_weight ?off,
                         \<lparr>r_field = FieldInstance_of q c i None, r_mutation = Mutation_Delete\<rparr>)
                        \<in> set (offered (ms_sampler ms2))"
    by auto
  have subs: "set (submessages [] ?N) = {([], ?N), ([(0, 0)], ?M)}"
    by (simp add: example_N_def example_M_def is_repeated_def)
  have f: "field_count ?N = 3" "field_count ?M = 3"
    "\<not> is_repeated (field ?M 0)" "HasField ?M 0"
    "\<not> is_repeated (field ?N 0)" "HasField ?N 0"
    "\<not> is_repeated (field ?N 2)" "HasField ?N 2"
    by (simp_all add: example_N_def example_M_def field_count_def field_def is_repeated_def
          HasField_def field_values_def)
  from all subs f
  have b1: "(75000, \<lparr>r_field = FieldInstance_of [(0, 0)] ?M 0 None, r_mutation = Mutation_Delete\<rparr>)
              \<in> set (offered (ms_sampler ms2))"
    and b2: "(75000, \<lparr>r_field = FieldInstance_of [] ?N 0 None, r_mutation = Mutation_Delete\<rparr>)
              \<in> set (offered (ms_sampler ms2))"
    and b3: "(75000, \<lparr>r_field = FieldInstance_of [] ?N 2 None, r_mutation = Mutation_Delete\<rparr>)
              \<in> set (offered (ms_sampler ms2))"
    by simp_all
  from wf s1 o1 a s2 o2 b1 b2 b3 show ?thesis by blast
qed


section \<open>Fallback of Copy to Delete\<close>















section \<open>Repair pass\<close>

lemma set_values_same: "i < field_count m \<Longrightarrow> set_values m i (field_values m i) = m"
  by (cases m) (simp add: set_values_def field_values_def field_def field_count_def)

lemma set_values_simps:
  "type_name (set_values m i vs) = type_name m"
  "field_count (set_values m i vs) = field_count m"
  "entries (set_values m i vs) = (entries m)[i := (field m i, vs)]"
  by (simp_all add: set_values_def field_count_def)

lemma field_set_values: "field (set_values m i vs) k = field m k"
proof (cases "i < length (entries m)")
  case True
  then show ?thesis by (simp add: set_values_def field_def nth_list_update)
next
  case False
  then show ?thesis by (simp add: set_values_def field_def list_update_beyond)
qed

lemma field_values_set_values:
  "i < field_count m \<Longrightarrow> field_values (set_values m i vs) i = vs"
  by (simp add: set_values_def field_values_def field_count_def)

lemma set_values_twice: "set_values (set_values m i xs) i ys = set_values m i ys"
  by (simp add: set_values_def field_set_values [unfolded set_values_def])

lemma repair_nested_Message:
  "repair_nested R (VMessage sub) = (if IsInitialized sub then VMessage sub else VMessage (R sub))"
  by (simp add: repair_nested_def)

lemma InitializeMessage_nested_result:
  assumes rec: "\<forall>n n'. recurse n = Inr n' \<longrightarrow> n' = R n"
    and r: "InitializeMessage_nested recurse i j m = Inr m'"
    and i: "i < field_count m"
  shows "m' = set_values m i ((field_values m i)[j := repair_nested R (field_values m i ! j)])"
proof -
  from r obtain sub where v: "field_values m i ! j = VMessage sub"
    by (cases "field_values m i ! j") (simp_all add: InitializeMessage_nested_def)
  show ?thesis
  proof (cases "IsInitialized sub")
    case True
    with r v have "m' = m" by (simp add: InitializeMessage_nested_def)
    moreover have "(field_values m i)[j := repair_nested R (field_values m i ! j)] = field_values m i"
      using list_update_id [of "field_values m i" j] v True by (simp add: repair_nested_Message)
    ultimately show ?thesis using i by (simp add: set_values_same)
  next
    case False
    with r v obtain nested' where n: "recurse sub = Inr nested'"
      and m': "m' = set_values m i ((field_values m i)[j := VMessage nested'])"
      by (auto simp: InitializeMessage_nested_def split: sum.splits)
    from rec n have "nested' = R sub" by blast
    with m' v False show ?thesis by (simp add: repair_nested_Message)
  qed
qed

lemma nested_loop:
  assumes rec: "\<forall>n n'. recurse n = Inr n' \<longrightarrow> n' = R n"
  shows "for_each [j..<n] (InitializeMessage_nested recurse i) m = Inr m' \<Longrightarrow>
         i < field_count m \<Longrightarrow> n \<le> length (field_values m i) \<Longrightarrow> j \<le> n \<Longrightarrow>
         m' = set_values m i (take j (field_values m i)
                @ map (repair_nested R) (take (n - j) (drop j (field_values m i)))
                @ drop n (field_values m i))"
proof (induction "n - j" arbitrary: j m)
  case 0
  then have "[j..<n] = []" by simp
  with 0 have "m' = m" by simp
  moreover from 0 have "j = n" by simp
  ultimately show ?case using 0 by (simp add: set_values_same)
next
  case (Suc k)
  let ?vs = "field_values m i"
  let ?rn = "repair_nested R"
  from Suc have jn: "j < n" by simp
  then have u: "[j..<n] = j # [Suc j..<n]" by (simp add: upt_conv_Cons)
  from Suc.prems(1) u obtain m1 where b: "InitializeMessage_nested recurse i j m = Inr m1"
    and l: "for_each [Suc j..<n] (InitializeMessage_nested recurse i) m1 = Inr m'"
    by (auto split: sum.splits)
  from InitializeMessage_nested_result [OF rec b Suc.prems(2)]
  have m1: "m1 = set_values m i (?vs[j := ?rn (?vs ! j)])" .
  let ?vs1 = "?vs[j := ?rn (?vs ! j)]"
  from m1 Suc.prems(2) have f1: "field_values m1 i = ?vs1" "i < field_count m1"
    by (simp_all add: field_values_set_values set_values_simps)
  from Suc have k: "k = n - Suc j" by simp
  from f1 Suc.prems(3) have n1: "n \<le> length (field_values m1 i)" by simp
  from jn have sj: "Suc j \<le> n" by simp
  from Suc.hyps(1) [OF k l f1(2) n1 sj] f1(1) m1
  have "m' = set_values m i (take (Suc j) ?vs1
                @ map ?rn (take (n - Suc j) (drop (Suc j) ?vs1)) @ drop n ?vs1)"
    by (simp add: set_values_twice)
  moreover from jn Suc.prems(3) have jl: "j < length ?vs" by simp
  then have "take (Suc j) ?vs1 = take j ?vs @ [?rn (?vs ! j)]"
    by (simp add: take_Suc_conv_app_nth)
  moreover have "drop (Suc j) ?vs1 = drop (Suc j) ?vs" by simp
  moreover from jn have "drop n ?vs1 = drop n ?vs" by simp
  moreover have "take (n - j) (drop j ?vs) = ?vs ! j # take (n - Suc j) (drop (Suc j) ?vs)"
  proof -
    from jl have "drop j ?vs = ?vs ! j # drop (Suc j) ?vs" by (simp add: Cons_nth_drop_Suc)
    moreover from jn have "n - j = Suc (n - Suc j)" by simp
    ultimately show ?thesis by (simp only: take_Suc_Cons)
  qed
  ultimately show ?case by simp
qed

lemma entries_nth: "entries m ! i = (field m i, field_values m i)"
  by (simp add: field_def field_values_def)

lemma required_no_siblings: "is_required (field m i) \<Longrightarrow> clear_siblings m i = m"
  by (simp add: clear_siblings_def containing_oneof_def is_required_def)

lemma CreateDefault_required:
  assumes "is_required (field m i)" and "i < field_count m"
  shows "CreateDefaultFieldTransformation schema m (FieldInstance_of [] m i None)
           = (case GetDefault schema (field m i) of
                Inl e \<Rightarrow> Inl e
              | Inr v \<Rightarrow> Inr (set_values m i [v]))"
proof -
  from assms(1) have "\<not> is_repeated (field m i)" by (auto simp: is_required_def is_repeated_def)
  with assms show ?thesis
    by (simp add: CreateDefaultFieldTransformation_def Create_def FieldInstance_of_def Let_def
          required_no_siblings split: sum.splits)
qed

lemma repair_field_nth:
  "repair_field schema R (entries m ! i) =
     (field m i,
      let vs1 = (if is_required (field m i) \<and> field_values m i = []
                 then (case GetDefault schema (field m i) of Inr v \<Rightarrow> [v] | Inl e \<Rightarrow> [])
                 else field_values m i)
      in if cpp_type (field m i) = CPPTYPE_MESSAGE
         then (if is_repeated (field m i) then map (repair_nested R) vs1
               else (case vs1 of [] \<Rightarrow> [] | v # rest \<Rightarrow> repair_nested R v # rest))
         else vs1)"
  by (simp add: entries_nth repair_field_def Let_def)

lemma InitializeMessage_field_result:
  assumes rec: "\<forall>n n'. recurse n = Inr n' \<longrightarrow> n' = R n"
    and r: "InitializeMessage_field schema (Suc d) recurse i m = Inr m'"
    and i: "i < field_count m"
  shows "m' = set_values m i (snd (repair_field schema R (entries m ! i)))"
proof -
  let ?f = "field m i"
  let ?vs1 = "(if is_required ?f \<and> field_values m i = []
                 then (case GetDefault schema ?f of Inr v \<Rightarrow> [v] | Inl e \<Rightarrow> [])
                 else field_values m i)"
  let ?first = "(if is_required ?f \<and> \<not> HasField m i
            then CreateDefaultFieldTransformation schema m (FieldInstance_of [] m i None)
            else Inr m)"
  from r obtain m1 where first: "?first = Inr m1"
    by (auto simp: InitializeMessage_field_def split: sum.splits)
  have m1: "m1 = set_values m i ?vs1"
  proof (cases "is_required ?f \<and> field_values m i = []")
    case True
    with first CreateDefault_required [of m i schema] i
    show ?thesis by (auto simp: HasField_def split: sum.splits)
  next
    case False
    with first i show ?thesis by (auto simp: HasField_def set_values_same)
  qed
  from m1 i have v1: "field_values m1 i = ?vs1" and c1: "i < field_count m1"
    and f1: "field m1 i = ?f"
    by (simp_all only: field_values_set_values set_values_simps field_set_values)
  let ?w = "field_values m1 i"
  note r1 = r [unfolded InitializeMessage_field_def first sum.case]
  note r' = r1 [unfolded f1 FieldSize_def HasField_def]
  from r' have rest: "(if cpp_type ?f = CPPTYPE_MESSAGE
          then (if is_repeated ?f
                then for_each [0..<length ?w] (InitializeMessage_nested recurse i) m1
                else if ?w \<noteq> []
                then InitializeMessage_nested recurse i 0 m1
                else Inr m1)
          else Inr m1) = Inr m'"
    by simp
  have w: "m' = set_values m1 i (if cpp_type ?f = CPPTYPE_MESSAGE
         then (if is_repeated ?f then map (repair_nested R) ?w
               else (case ?w of [] \<Rightarrow> [] | v # rest \<Rightarrow> repair_nested R v # rest))
         else ?w)"
  proof (cases "cpp_type ?f = CPPTYPE_MESSAGE")
    case False
    with rest have "m' = m1" by simp
    with False c1 show ?thesis by (simp add: set_values_same)
  next
    case msg: True
    show ?thesis
    proof (cases "is_repeated ?f")
      case True
      with msg rest have l: "for_each [0..<length ?w] (InitializeMessage_nested recurse i) m1 = Inr m'"
        by simp
      from nested_loop [OF rec l c1 le_refl le0]
      have "m' = set_values m1 i (map (repair_nested R) ?w)" by simp
      with msg True show ?thesis by simp
    next
      case False
      show ?thesis
      proof (cases ?w)
        case Nil
        with msg False rest have "m' = m1" by simp
        moreover from Nil c1 have "m1 = set_values m1 i []"
          using set_values_same [of i m1] by simp
        ultimately show ?thesis using msg False Nil by simp
      next
        case (Cons v tl)
        with msg False rest have n: "InitializeMessage_nested recurse i 0 m1 = Inr m'" by simp
        from InitializeMessage_nested_result [OF rec n c1] Cons
        have "m' = set_values m1 i (repair_nested R v # tl)" by simp
        with msg False Cons show ?thesis by simp
      qed
    qed
  qed
  let ?out = "(if cpp_type ?f = CPPTYPE_MESSAGE
         then (if is_repeated ?f then map (repair_nested R) ?vs1
               else (case ?vs1 of [] \<Rightarrow> [] | v # rest \<Rightarrow> repair_nested R v # rest))
         else ?vs1)"
  from w have "m' = set_values m1 i ?out" by (simp only: v1)
  with m1 have "m' = set_values m i ?out" by (simp only: set_values_twice)
  then show ?thesis by (simp only: repair_field_nth snd_conv Let_def)
qed

lemma fst_repair_field: "fst (repair_field schema R e) = fst e"
  by (cases e) (simp add: repair_field_def Let_def)

lemma fields_loop:
  assumes rec: "\<forall>n n'. recurse n = Inr n' \<longrightarrow> n' = R n"
  shows "for_each [k..<n] (InitializeMessage_field schema (Suc d) recurse) m = Inr m' \<Longrightarrow>
         n = field_count m \<Longrightarrow> k \<le> n \<Longrightarrow>
         type_name m' = type_name m \<and>
         entries m' = take k (entries m) @ map (repair_field schema R) (drop k (entries m))"
proof (induction "n - k" arbitrary: k m)
  case 0
  then have "[k..<n] = []" and "k = n" by simp_all
  with 0 show ?case by (simp add: field_count_def)
next
  case (Suc x)
  let ?es = "entries m"
  let ?rf = "repair_field schema R"
  from Suc have kn: "k < n" by simp
  then have u: "[k..<n] = k # [Suc k..<n]" by (simp add: upt_conv_Cons)
  from Suc.prems(1) u obtain m1 where b: "InitializeMessage_field schema (Suc d) recurse k m = Inr m1"
    and l: "for_each [Suc k..<n] (InitializeMessage_field schema (Suc d) recurse) m1 = Inr m'"
    by (auto split: sum.splits)
  from kn Suc.prems(2) have kc: "k < field_count m" by simp
  from InitializeMessage_field_result [OF rec b kc]
  have m1: "m1 = set_values m k (snd (?rf (?es ! k)))" .
  have "(field m k, snd (?rf (?es ! k))) = ?rf (?es ! k)"
    using fst_repair_field [of schema R "?es ! k"] by (simp add: field_def prod_eq_iff)
  with m1 have e1: "entries m1 = ?es[k := ?rf (?es ! k)]" and t1: "type_name m1 = type_name m"
    and c1: "n = field_count m1"
    using Suc.prems(2) by (simp_all add: set_values_simps)
  from Suc have x: "x = n - Suc k" by simp
  from kn have sk: "Suc k \<le> n" by simp
  from Suc.hyps(1) [OF x l c1 sk]
  have t: "type_name m' = type_name m1"
    and e: "entries m' = take (Suc k) (entries m1) @ map ?rf (drop (Suc k) (entries m1))"
    by simp_all
  from kc have kl: "k < length ?es" by (simp add: field_count_def)
  then have a: "take (Suc k) (?es[k := ?rf (?es ! k)]) = take k ?es @ [?rf (?es ! k)]"
    by (simp add: take_Suc_conv_app_nth)
  have b': "drop (Suc k) (?es[k := ?rf (?es ! k)]) = drop (Suc k) ?es" by simp
  from kl have c: "drop k ?es = ?es ! k # drop (Suc k) ?es" by (simp add: Cons_nth_drop_Suc)
  from e e1 a b' c have "entries m' = take k ?es @ map ?rf (drop k ?es)" by simp
  with t t1 show ?case by simp
qed

lemma InitializeMessage_result:
  "\<forall>m m'. InitializeMessage schema True m d = Inr m' \<longrightarrow> m' = repaired schema d m"
proof (induction d)
  case 0
  show ?case by simp
next
  case (Suc d)
  show ?case
  proof (intro allI impI)
    fix m m' assume r: "InitializeMessage schema True m (Suc d) = Inr m'"
    then have l: "for_each [0..<field_count m]
             (InitializeMessage_field schema (Suc d)
                (\<lambda>nested_message. InitializeMessage schema True nested_message d)) m = Inr m'"
      by simp
    from fields_loop [OF Suc l refl le0]
    have "type_name m' = type_name m"
      and "entries m' = map (repair_field schema (repaired schema d)) (entries m)"
      by simp_all
    then show "m' = repaired schema (Suc d) m" by (cases m') simp
  qed
qed

lemma InitializeMessage_nested_returns:
  assumes "field_values m i ! j = VMessage sub"
    and "IsInitialized sub \<or> (\<exists>n'. recurse sub = Inr n')"
  shows "\<exists>m'. InitializeMessage_nested recurse i j m = Inr m'"
  using assms by (auto simp: InitializeMessage_nested_def)

lemma nested_loop_returns:
  assumes rec: "\<forall>n n'. recurse n = Inr n' \<longrightarrow> n' = R n"
  shows "i < field_count m \<Longrightarrow> n \<le> length (field_values m i) \<Longrightarrow> j \<le> n \<Longrightarrow>
         \<forall>j'. j \<le> j' \<and> j' < n \<longrightarrow>
           (\<exists>sub. field_values m i ! j' = VMessage sub \<and>
                  (IsInitialized sub \<or> (\<exists>n'. recurse sub = Inr n'))) \<Longrightarrow>
         \<exists>m'. for_each [j..<n] (InitializeMessage_nested recurse i) m = Inr m'"
proof (induction "n - j" arbitrary: j m)
  case 0
  then have e: "[j..<n] = []" by simp
  show ?case unfolding e by simp
next
  case (Suc k)
  let ?vs = "field_values m i"
  from Suc have jn: "j < n" by simp
  then have u: "[j..<n] = j # [Suc j..<n]" by (simp add: upt_conv_Cons)
  from Suc.prems(4) jn obtain sub where v: "?vs ! j = VMessage sub"
    and ok: "IsInitialized sub \<or> (\<exists>n'. recurse sub = Inr n')" by blast
  from InitializeMessage_nested_returns [of m i j sub recurse, OF v ok]
  obtain m1 where b: "InitializeMessage_nested recurse i j m = Inr m1" by blast
  from InitializeMessage_nested_result [OF rec b Suc.prems(1)]
  have m1: "m1 = set_values m i (?vs[j := repair_nested R (?vs ! j)])" .
  from m1 Suc.prems(1) have f1: "field_values m1 i = ?vs[j := repair_nested R (?vs ! j)]"
    and c1: "i < field_count m1"
    by (simp_all add: field_values_set_values set_values_simps)
  from f1 Suc.prems(2) have n1: "n \<le> length (field_values m1 i)" by simp
  from Suc have k: "k = n - Suc j" by simp
  from jn have sj: "Suc j \<le> n" by simp
  have rest: "\<forall>j'. Suc j \<le> j' \<and> j' < n \<longrightarrow>
           (\<exists>sub. field_values m1 i ! j' = VMessage sub \<and>
                  (IsInitialized sub \<or> (\<exists>n'. recurse sub = Inr n')))"
  proof (intro allI impI)
    fix j' assume a: "Suc j \<le> j' \<and> j' < n"
    then have "field_values m1 i ! j' = ?vs ! j'" by (simp add: f1)
    moreover from a have "j \<le> j' \<and> j' < n" by simp
    ultimately show "\<exists>sub. field_values m1 i ! j' = VMessage sub \<and>
                  (IsInitialized sub \<or> (\<exists>n'. recurse sub = Inr n'))"
      using Suc.prems(4) by simp
  qed
  from Suc.hyps(1) [OF k c1 n1 sj rest]
  obtain m' where "for_each [Suc j..<n] (InitializeMessage_nested recurse i) m1 = Inr m'" by blast
  with u b show ?case by simp
qed

lemma GetDefault_scalar: "cpp_type f \<noteq> CPPTYPE_MESSAGE \<Longrightarrow> \<exists>v. GetDefault schema f = Inr v"
  by (cases "cpp_type f") (simp_all add: GetDefault_def)

lemma InitializeMessage_field_returns:
  assumes rec: "\<forall>n n'. recurse n = Inr n' \<longrightarrow> n' = R n"
    and i: "i < field_count m"
    and ok: "cpp_type (field m i) = CPPTYPE_MESSAGE \<longrightarrow>
               (is_required (field m i) \<and> field_values m i = [] \<longrightarrow>
                  (\<exists>t. message_type (field m i) = Some t \<and>
                       (IsInitialized (New schema t) \<or> (\<exists>n'. recurse (New schema t) = Inr n')))) \<and>
               (\<forall>j<length (field_values m i).
                   \<exists>sub. field_values m i ! j = VMessage sub \<and>
                         (IsInitialized sub \<or> (\<exists>n'. recurse sub = Inr n')))"
  shows "\<exists>m'. InitializeMessage_field schema (Suc d) recurse i m = Inr m'"
proof (cases "cpp_type (field m i) = CPPTYPE_MESSAGE")
  case False
  show ?thesis
  proof (cases "is_required (field m i) \<and> \<not> HasField m i")
    case True
    from GetDefault_scalar [OF False] obtain v where "GetDefault schema (field m i) = Inr v"
      by blast
    with True i False show ?thesis
      by (simp add: InitializeMessage_field_def CreateDefault_required field_set_values)
  next
    case nd: False
    with False show ?thesis by (auto simp: InitializeMessage_field_def)
  qed
next
  case msg: True
  with ok have dflt: "is_required (field m i) \<and> field_values m i = [] \<longrightarrow>
                  (\<exists>t. message_type (field m i) = Some t \<and>
                       (IsInitialized (New schema t) \<or> (\<exists>n'. recurse (New schema t) = Inr n')))"
    and all: "\<forall>j<length (field_values m i).
                   \<exists>sub. field_values m i ! j = VMessage sub \<and>
                         (IsInitialized sub \<or> (\<exists>n'. recurse sub = Inr n'))"
    by simp_all
  show ?thesis
  proof (cases "is_required (field m i) \<and> \<not> HasField m i")
    case True
    then have req: "is_required (field m i)" and un: "field_values m i = []"
      by (simp_all add: HasField_def)
    from req have nr: "\<not> is_repeated (field m i)" by (auto simp: is_required_def is_repeated_def)
    from dflt req un obtain t where t: "message_type (field m i) = Some t"
      and s: "IsInitialized (New schema t) \<or> (\<exists>n'. recurse (New schema t) = Inr n')" by blast
    let ?m1 = "set_values m i [VMessage (New schema t)]"
    from msg t have g: "GetDefault schema (field m i) = Inr (VMessage (New schema t))"
      by (simp add: GetDefault_def)
    from req i g have c: "CreateDefaultFieldTransformation schema m (FieldInstance_of [] m i None)
                            = Inr ?m1"
      by (simp add: CreateDefault_required)
    from i have v1: "field_values ?m1 i = [VMessage (New schema t)]"
      by (rule field_values_set_values)
    then have v0: "field_values ?m1 i ! 0 = VMessage (New schema t)" by simp
    from InitializeMessage_nested_returns [of ?m1 i 0 "New schema t" recurse, OF v0 s]
    obtain m' where "InitializeMessage_nested recurse i 0 ?m1 = Inr m'" by blast
    with True c msg nr v1 show ?thesis
      by (simp add: InitializeMessage_field_def field_set_values HasField_def)
  next
    case nd: False
    show ?thesis
    proof (cases "is_repeated (field m i)")
      case True
      from all have "\<forall>j'. 0 \<le> j' \<and> j' < length (field_values m i) \<longrightarrow>
             (\<exists>sub. field_values m i ! j' = VMessage sub \<and>
                    (IsInitialized sub \<or> (\<exists>n'. recurse sub = Inr n')))" by simp
      from nested_loop_returns [OF rec i le_refl le0 this]
      obtain m' where "for_each [0..<length (field_values m i)] (InitializeMessage_nested recurse i) m
                         = Inr m'" by blast
      with msg nd True show ?thesis
        by (auto simp: InitializeMessage_field_def FieldSize_def)
    next
      case False
      show ?thesis
      proof (cases "HasField m i")
        case nh: False
        with msg nd False show ?thesis by (auto simp: InitializeMessage_field_def)
      next
        case True
        then have "0 < length (field_values m i)" by (simp add: HasField_def)
        with all obtain sub where v: "field_values m i ! 0 = VMessage sub"
          and s: "IsInitialized sub \<or> (\<exists>n'. recurse sub = Inr n')" by blast
        from InitializeMessage_nested_returns [of m i 0 sub recurse, OF v s]
        obtain m' where "InitializeMessage_nested recurse i 0 m = Inr m'" by blast
        with msg nd False True show ?thesis by (auto simp: InitializeMessage_field_def)
      qed
    qed
  qed
qed

lemma fields_loop_returns:
  assumes rec: "\<forall>n n'. recurse n = Inr n' \<longrightarrow> n' = R n"
  shows "n = field_count m \<Longrightarrow> k \<le> n \<Longrightarrow>
         \<forall>i. k \<le> i \<and> i < n \<longrightarrow>
           (cpp_type (field m i) = CPPTYPE_MESSAGE \<longrightarrow>
               (is_required (field m i) \<and> field_values m i = [] \<longrightarrow>
                  (\<exists>t. message_type (field m i) = Some t \<and>
                       (IsInitialized (New schema t) \<or> (\<exists>n'. recurse (New schema t) = Inr n')))) \<and>
               (\<forall>j<length (field_values m i).
                   \<exists>sub. field_values m i ! j = VMessage sub \<and>
                         (IsInitialized sub \<or> (\<exists>n'. recurse sub = Inr n')))) \<Longrightarrow>
         \<exists>m'. for_each [k..<n] (InitializeMessage_field schema (Suc d) recurse) m = Inr m'"
proof (induction "n - k" arbitrary: k m)
  case 0
  then have e: "[k..<n] = []" by simp
  show ?case unfolding e by simp
next
  case (Suc x)
  from Suc have kn: "k < n" by simp
  then have u: "[k..<n] = k # [Suc k..<n]" by (simp add: upt_conv_Cons)
  from kn Suc.prems(1) have kc: "k < field_count m" by simp
  from Suc.prems(3) kn
  have okk: "cpp_type (field m k) = CPPTYPE_MESSAGE \<longrightarrow>
               (is_required (field m k) \<and> field_values m k = [] \<longrightarrow>
                  (\<exists>t. message_type (field m k) = Some t \<and>
                       (IsInitialized (New schema t) \<or> (\<exists>n'. recurse (New schema t) = Inr n')))) \<and>
               (\<forall>j<length (field_values m k).
                   \<exists>sub. field_values m k ! j = VMessage sub \<and>
                         (IsInitialized sub \<or> (\<exists>n'. recurse sub = Inr n')))"
    by blast
  from InitializeMessage_field_returns [OF rec kc okk]
  obtain m1 where b: "InitializeMessage_field schema (Suc d) recurse k m = Inr m1" by blast
  from InitializeMessage_field_result [OF rec b kc]
  have m1: "m1 = set_values m k (snd (repair_field schema R (entries m ! k)))" .
  from m1 Suc.prems(1) have c1: "n = field_count m1" by (simp add: set_values_simps)
  have same: "field m1 i = field m i \<and> field_values m1 i = field_values m i" if "i \<noteq> k" for i
    using that m1 by (simp add: field_set_values) (simp add: field_values_def set_values_def)
  from Suc have x: "x = n - Suc k" by simp
  from kn have sk: "Suc k \<le> n" by simp
  have rest: "\<forall>i. Suc k \<le> i \<and> i < n \<longrightarrow>
           (cpp_type (field m1 i) = CPPTYPE_MESSAGE \<longrightarrow>
               (is_required (field m1 i) \<and> field_values m1 i = [] \<longrightarrow>
                  (\<exists>t. message_type (field m1 i) = Some t \<and>
                       (IsInitialized (New schema t) \<or> (\<exists>n'. recurse (New schema t) = Inr n')))) \<and>
               (\<forall>j<length (field_values m1 i).
                   \<exists>sub. field_values m1 i ! j = VMessage sub \<and>
                         (IsInitialized sub \<or> (\<exists>n'. recurse sub = Inr n'))))"
  proof (rule allI, rule impI)
    fix i assume a: "Suc k \<le> i \<and> i < n"
    then have "i \<noteq> k" by simp
    from same [OF this] have f: "field m1 i = field m i" and v: "field_values m1 i = field_values m i"
      by simp_all
    from a have "k \<le> i \<and> i < n" by simp
    with Suc.prems(3)
    have "cpp_type (field m i) = CPPTYPE_MESSAGE \<longrightarrow>
               (is_required (field m i) \<and> field_values m i = [] \<longrightarrow>
                  (\<exists>t. message_type (field m i) = Some t \<and>
                       (IsInitialized (New schema t) \<or> (\<exists>n'. recurse (New schema t) = Inr n')))) \<and>
               (\<forall>j<length (field_values m i).
                   \<exists>sub. field_values m i ! j = VMessage sub \<and>
                         (IsInitialized sub \<or> (\<exists>n'. recurse sub = Inr n')))"
      by blast
    then show "cpp_type (field m1 i) = CPPTYPE_MESSAGE \<longrightarrow>
               (is_required (field m1 i) \<and> field_values m1 i = [] \<longrightarrow>
                  (\<exists>t. message_type (field m1 i) = Some t \<and>
                       (IsInitialized (New schema t) \<or> (\<exists>n'. recurse (New schema t) = Inr n')))) \<and>
               (\<forall>j<length (field_values m1 i).
                   \<exists>sub. field_values m1 i ! j = VMessage sub \<and>
                         (IsInitialized sub \<or> (\<exists>n'. recurse sub = Inr n')))"
      by (simp only: f v)
  qed
  from Suc.hyps(1) [OF x c1 sk rest]
  obtain m' where "for_each [Suc k..<n] (InitializeMessage_field schema (Suc d) recurse) m1 = Inr m'"
    by blast
  with u b show ?case by simp
qed

lemma InitializeMessage_returns:
  "\<forall>m. repairable schema d m \<longrightarrow> (\<exists>m'. InitializeMessage schema True m d = Inr m')"
proof (induction d)
  case 0
  show ?case by simp
next
  case (Suc d)
  show ?case
  proof (intro allI impI)
    fix m assume r: "repairable schema (Suc d) m"
    let ?recurse = "\<lambda>nested_message. InitializeMessage schema True nested_message d"
    have ok: "\<forall>i. 0 \<le> i \<and> i < field_count m \<longrightarrow>
           (cpp_type (field m i) = CPPTYPE_MESSAGE \<longrightarrow>
               (is_required (field m i) \<and> field_values m i = [] \<longrightarrow>
                  (\<exists>t. message_type (field m i) = Some t \<and>
                       (IsInitialized (New schema t) \<or> (\<exists>n'. ?recurse (New schema t) = Inr n')))) \<and>
               (\<forall>j<length (field_values m i).
                   \<exists>sub. field_values m i ! j = VMessage sub \<and>
                         (IsInitialized sub \<or> (\<exists>n'. ?recurse sub = Inr n'))))"
    proof (intro allI impI)
      fix i assume i: "0 \<le> i \<and> i < field_count m" and msg: "cpp_type (field m i) = CPPTYPE_MESSAGE"
      from i have "entries m ! i \<in> set (entries m)" by (simp add: field_count_def)
      with r have "case entries m ! i of (f, vs) \<Rightarrow> cpp_type f = CPPTYPE_MESSAGE \<longrightarrow>
                 (is_required f \<and> vs = [] \<longrightarrow>
                    (case message_type f of
                       None \<Rightarrow> False
                     | Some t \<Rightarrow> IsInitialized (New schema t) \<or> repairable schema d (New schema t))) \<and>
                 list_all (\<lambda>v. case v of
                                  VMessage sub \<Rightarrow> IsInitialized sub \<or> repairable schema d sub
                                | _ \<Rightarrow> False) vs"
        by (simp add: list_all_iff)
      with msg have s: "is_required (field m i) \<and> field_values m i = [] \<longrightarrow>
                    (case message_type (field m i) of
                       None \<Rightarrow> False
                     | Some t \<Rightarrow> IsInitialized (New schema t) \<or> repairable schema d (New schema t))"
        and a: "list_all (\<lambda>v. case v of
                                  VMessage sub \<Rightarrow> IsInitialized sub \<or> repairable schema d sub
                                | _ \<Rightarrow> False) (field_values m i)"
        by (simp_all add: entries_nth)
      have d: "is_required (field m i) \<and> field_values m i = [] \<longrightarrow>
                  (\<exists>t. message_type (field m i) = Some t \<and>
                       (IsInitialized (New schema t) \<or> (\<exists>n'. ?recurse (New schema t) = Inr n')))"
      proof
        assume u: "is_required (field m i) \<and> field_values m i = []"
        with s obtain t where t: "message_type (field m i) = Some t"
          by (cases "message_type (field m i)") simp_all
        with s u have "IsInitialized (New schema t) \<or> repairable schema d (New schema t)" by simp
        with Suc have "IsInitialized (New schema t) \<or> (\<exists>n'. ?recurse (New schema t) = Inr n')"
          by blast
        with t show "\<exists>t. message_type (field m i) = Some t \<and>
                       (IsInitialized (New schema t) \<or> (\<exists>n'. ?recurse (New schema t) = Inr n'))"
          by blast
      qed
      have "\<forall>j<length (field_values m i).
                   \<exists>sub. field_values m i ! j = VMessage sub \<and>
                         (IsInitialized sub \<or> (\<exists>n'. ?recurse sub = Inr n'))"
      proof (intro allI impI)
        fix j assume j: "j < length (field_values m i)"
        with a have c: "case field_values m i ! j of
                          VMessage sub \<Rightarrow> IsInitialized sub \<or> repairable schema d sub | _ \<Rightarrow> False"
          by (simp add: list_all_length)
        then obtain sub where v: "field_values m i ! j = VMessage sub"
          by (cases "field_values m i ! j") simp_all
        with c have "IsInitialized sub \<or> repairable schema d sub" by simp
        with Suc have "IsInitialized sub \<or> (\<exists>n'. ?recurse sub = Inr n')" by blast
        with v show "\<exists>sub. field_values m i ! j = VMessage sub \<and>
                         (IsInitialized sub \<or> (\<exists>n'. ?recurse sub = Inr n'))" by blast
      qed
      with d show "(is_required (field m i) \<and> field_values m i = [] \<longrightarrow>
                  (\<exists>t. message_type (field m i) = Some t \<and>
                       (IsInitialized (New schema t) \<or> (\<exists>n'. ?recurse (New schema t) = Inr n')))) \<and>
               (\<forall>j<length (field_values m i).
                   \<exists>sub. field_values m i ! j = VMessage sub \<and>
                         (IsInitialized sub \<or> (\<exists>n'. ?recurse sub = Inr n')))" by blast
    qed
    from fields_loop_returns [OF InitializeMessage_result refl le0 ok]
    show "\<exists>m'. InitializeMessage schema True m (Suc d) = Inr m'" by simp
  qed
qed

lemma MutateInt32_Cons:
  "MutateInt32 v (r # rest) = Inr (v XOR push_bit (r mod 32) 1, rest)"
proof -
  have sz: "size_t_sub (size_t_wrap (sizeof v * 8)) 1 = LENGTH(32) - 1"
    by (simp add: sizeof_def size_t_wrap_def size_t_sub_def)
  from FlipBit_value_eq [of v "r # rest", OF _ sz]
  obtain b random' where "uniform_int_distribution 0 (LENGTH(32) - 1) (r # rest) = (b, random')"
    and "FlipBit_value v (r # rest) = Inr (v XOR push_bit b 1, random')"
    by auto
  then show ?thesis by (auto simp: MutateInt32_def uniform_int_distribution_def)
qed

lemma InitializeMessage_unfold:
  "0 < d \<Longrightarrow> InitializeMessage schema True message d =
     for_each [0..<field_count message]
       (InitializeMessage_field schema d
          (\<lambda>nested_message. InitializeMessage schema True nested_message (d - 1)))
       message"
  by (cases d) simp_all

lemma Mutate_example_created:
  "Mutate example_schema True [0, 30000, 30000, 0, 5] (example_M [] [] []) 64
     = Inr (example_M [VInt32 32] [] [], [])"
  by (simp add: Mutate_def MutationSampler_new_def initial_add_weight_closed
        initial_delete_weight_closed example_M_def sampler_eval mutation_def selected_field_def
        Mutate_switch_def GetRandomBool_def Apply_def CreateFieldTransformation_def GetDefault_def
        FieldMutator_Mutate_def MutateInt32_Cons Create_def clear_siblings_def set_values_def)

lemma sampler_Try_random_update: "ms\<lparr>ms_random := ms_random ms\<rparr> = ms"
  by simp

lemma sampler_Try_selected:
  "selected (ms_sampler (sampler_Try w fi mu ms)) = Some \<lparr>r_field = fi, r_mutation = mu\<rparr> \<or>
   selected (ms_sampler (sampler_Try w fi mu ms)) = selected (ms_sampler ms)"
  by (simp add: sampler_Try_def Try_def split: prod.splits)

lemma sampler_Try_first:
  assumes "0 < w" and "total_weight (ms_sampler ms) = 0"
  shows "selected (ms_sampler (sampler_Try w fi mu ms)) = Some \<lparr>r_field = fi, r_mutation = mu\<rparr>"
proof -
  obtain u r where u: "uniform_int_distribution 0 (w - 1) (ms_random ms) = (u, r)"
    by (cases "uniform_int_distribution 0 (w - 1) (ms_random ms)") blast
  from uniform_int_distribution_range [of 0 "w - 1" "ms_random ms"] u assms(1)
  have "u < w" by simp
  with u assms show ?thesis by (simp add: sampler_Try_def Try_def)
qed

lemma Sample_example_empty:
  "Sample [] (example_M [] [] []) ms =
     Inr (sampler_Try (ms_add_weight ms) (FieldInstance_of [] (example_M [] [] []) 2 (Some 0)) Mutation_Add
           (sampler_Try (ms_add_weight ms) (FieldInstance_of [] (example_M [] [] []) 1 None) Mutation_Add
             (sampler_Try (ms_add_weight ms) (FieldInstance_of [] (example_M [] [] []) 0 None) Mutation_Add
                ms)))"
  by (simp add: example_M_def Sample_candidates_def field_def containing_oneof_def is_repeated_def
        HasField_def field_values_def FieldSize_def GetRandomIndex_def Let_def numeral_2_eq_2)

lemma initial_add_weight_pos: "0 < h \<Longrightarrow> 0 < initial_add_weight h"
proof (cases "h < 128")
  case True
  assume "0 < h"
  then have "8 \<le> 3125 * h" by simp
  then have "0 < (3125 * h) div 8" by (simp add: div_greater_zero_iff)
  with True show ?thesis by (simp add: initial_add_weight_closed)
next
  case False
  then show ?thesis
    by (simp add: initial_add_weight_def kDeletionThreshold_def kMutateWeight_def)
qed

lemma MutationSampler_new_example:
  assumes "0 < h"
  shows "\<exists>ms. MutationSampler_new True h random (example_M [] [] []) = Inr ms \<and>
           mutation ms = Mutation_Add \<and>
           (selected_field ms = FieldInstance_of [] (example_M [] [] []) 0 None \<or>
            selected_field ms = FieldInstance_of [] (example_M [] [] []) 1 None \<or>
            selected_field ms = FieldInstance_of [] (example_M [] [] []) 2 (Some 0))"
proof -
  let ?M = "example_M [] [] []"
  let ?w = "initial_add_weight h"
  let ?ms0 = "\<lparr>ms_keep_initialized = True, ms_add_weight = ?w,
               ms_delete_weight = initial_delete_weight h, ms_random = random,
               ms_sampler = WeightedReservoirSampler_new\<rparr>"
  let ?ms1 = "sampler_Try ?w (FieldInstance_of [] ?M 0 None) Mutation_Add ?ms0"
  let ?ms2 = "sampler_Try ?w (FieldInstance_of [] ?M 1 None) Mutation_Add ?ms1"
  let ?ms3 = "sampler_Try ?w (FieldInstance_of [] ?M 2 (Some 0)) Mutation_Add ?ms2"
  have s: "Sample [] ?M ?ms0 = Inr ?ms3"
    using Sample_example_empty [of ?ms0] by simp
  from initial_add_weight_pos [OF assms]
  have s1: "selected (ms_sampler ?ms1)
              = Some \<lparr>r_field = FieldInstance_of [] ?M 0 None, r_mutation = Mutation_Add\<rparr>"
    by (rule sampler_Try_first) (simp add: WeightedReservoirSampler_new_def)
  from sampler_Try_selected [of ?w "FieldInstance_of [] ?M 1 None" Mutation_Add ?ms1] s1
  have s2: "selected (ms_sampler ?ms2)
              = Some \<lparr>r_field = FieldInstance_of [] ?M 1 None, r_mutation = Mutation_Add\<rparr> \<or>
            selected (ms_sampler ?ms2)
              = Some \<lparr>r_field = FieldInstance_of [] ?M 0 None, r_mutation = Mutation_Add\<rparr>"
    by (simp only:)
  from sampler_Try_selected [of ?w "FieldInstance_of [] ?M 2 (Some 0)" Mutation_Add ?ms2] s2
  have s3: "selected (ms_sampler ?ms3)
              = Some \<lparr>r_field = FieldInstance_of [] ?M 2 (Some 0), r_mutation = Mutation_Add\<rparr> \<or>
            selected (ms_sampler ?ms3)
              = Some \<lparr>r_field = FieldInstance_of [] ?M 1 None, r_mutation = Mutation_Add\<rparr> \<or>
            selected (ms_sampler ?ms3)
              = Some \<lparr>r_field = FieldInstance_of [] ?M 0 None, r_mutation = Mutation_Add\<rparr>"
    by presburger
  then have m: "mutation ?ms3 = Mutation_Add"
    and f: "selected_field ?ms3 = FieldInstance_of [] ?M 0 None \<or>
            selected_field ?ms3 = FieldInstance_of [] ?M 1 None \<or>
            selected_field ?ms3 = FieldInstance_of [] ?M 2 (Some 0)"
    unfolding mutation_def selected_field_def by auto
  from s m have "MutationSampler_new True h random ?M = Inr ?ms3"
    by (simp only: MutationSampler_new_def sum.case) simp
  with m f show ?thesis by blast
qed

lemma MutateInt32_returns:
  "\<exists>b random'. b < 32 \<and> MutateInt32 v random = Inr (v XOR push_bit b 1, random')"
  using FlipBit_value_32 [of v random] unfolding MutateInt32_def by blast

lemma MutateString_returns: "\<exists>v' random'. MutateString v h random = Inr (v', random')"
proof -
  from MutateString_shrink_ok [of v random] obtain r1 random1
    where s: "MutateString_shrink v random = Inr (r1, random1)" by blast
  from MutateString_grow_ok [of r1 h random1] obtain r2 random2
    where g: "MutateString_grow r1 h random1 = Inr (r2, random2)" by blast
  show ?thesis
  proof (cases "r2 = []")
    case True
    with s g show ?thesis by (simp add: MutateString_def)
  next
    case False
    from FlipBit_ok [OF False, of random2] obtain bytes random'
      where "FlipBit (length r2) r2 random2 = Inr (bytes, random')" by blast
    with False s g show ?thesis by (simp add: MutateString_def)
  qed
qed

lemmas example_eval =
  example_M_def FieldInstance_of_def field_def field_count_def field_values_def is_repeated_def
  is_required_def HasField_def containing_oneof_def Apply_def Create_def clear_siblings_def
  set_values_def GetDefault_def Let_def

lemma Mutate_switch_Add_a:
  "\<exists>x random'. Mutate_switch example_schema Mutation_Add
                  (FieldInstance_of [] (example_M [] [] []) 0 None) random (example_M [] [] []) h
                = Inr (example_M [VInt32 x] [] [], random') \<and>
               (x = 0 \<or> (\<exists>b<32. x = push_bit b 1))"
proof -
  from GetRandomBool_ok [of 2 random] obtain b random1
    where g: "GetRandomBool random 2 = Inr (b, random1)" by auto
  show ?thesis
  proof (cases b)
    case False
    with g show ?thesis
      by (simp add: Mutate_switch_def CreateDefaultFieldTransformation_def returning_def example_eval)
  next
    case True
    from MutateInt32_returns [of 0 random1] obtain k random'
      where k: "k < 32" and m: "MutateInt32 0 random1 = Inr (push_bit k 1, random')" by auto
    from True g m
    have "Mutate_switch example_schema Mutation_Add
            (FieldInstance_of [] (example_M [] [] []) 0 None) random (example_M [] [] []) h
          = Inr (example_M [VInt32 (push_bit k 1)] [] [], random')"
      by (simp add: Mutate_switch_def CreateFieldTransformation_def FieldMutator_Mutate_def
            example_eval)
    with k show ?thesis by blast
  qed
qed

lemma Mutate_switch_Add_b:
  "\<exists>s random'. Mutate_switch example_schema Mutation_Add
                  (FieldInstance_of [] (example_M [] [] []) 1 None) random (example_M [] [] []) h
                = Inr (example_M [] [VString s] [], random')"
proof -
  from GetRandomBool_ok [of 2 random] obtain b random1
    where g: "GetRandomBool random 2 = Inr (b, random1)" by auto
  show ?thesis
  proof (cases b)
    case False
    with g show ?thesis
      by (simp add: Mutate_switch_def CreateDefaultFieldTransformation_def returning_def example_eval)
  next
    case True
    from MutateString_returns [of "[]" "h div 2" random1] obtain s random'
      where m: "MutateString [] (h div 2) random1 = Inr (s, random')" by auto
    from True g m
    have "Mutate_switch example_schema Mutation_Add
            (FieldInstance_of [] (example_M [] [] []) 1 None) random (example_M [] [] []) h
          = Inr (example_M [] [VString s] [], random')"
      by (simp add: Mutate_switch_def CreateFieldTransformation_def FieldMutator_Mutate_def
            example_eval)
    then show ?thesis by blast
  qed
qed

lemma Mutate_switch_Add_c:
  "\<exists>x random'. Mutate_switch example_schema Mutation_Add
                  (FieldInstance_of [] (example_M [] [] []) 2 (Some 0)) random (example_M [] [] []) h
                = Inr (example_M [] [] [VInt32 x], random')"
proof -
  from GetRandomBool_ok [of 2 random] obtain b random1
    where g: "GetRandomBool random 2 = Inr (b, random1)" by auto
  show ?thesis
  proof (cases b)
    case False
    with g show ?thesis
      by (simp add: Mutate_switch_def CreateDefaultFieldTransformation_def returning_def example_eval)
  next
    case True
    from MutateInt32_returns [of 0 random1] obtain k random'
      where m: "MutateInt32 0 random1 = Inr (push_bit k 1, random')" by auto
    from True g m
    have "Mutate_switch example_schema Mutation_Add
            (FieldInstance_of [] (example_M [] [] []) 2 (Some 0)) random (example_M [] [] []) h
          = Inr (example_M [] [] [VInt32 (push_bit k 1)], random')"
      by (simp add: Mutate_switch_def CreateFieldTransformation_def FieldMutator_Mutate_def
            example_eval)
    then show ?thesis by blast
  qed
qed

lemma InitializeMessage_example:
  "InitializeMessage example_schema True (example_M [] vb vc) kMaxInitializeDepth
     = Inr (example_M [VInt32 0] vb vc)"
  by (simp add: kMaxInitializeDepth_def InitializeMessage_unfold InitializeMessage_field_def
        CreateDefaultFieldTransformation_def example_eval numeral_3_eq_3)

lemma Mutate_example:
  assumes "0 < h"
  shows "\<exists>message' random' x.
           Mutate example_schema True random (example_M [] [] []) h = Inr (message', random') \<and>
           IsInitialized message' \<and> field_values message' 0 = [VInt32 x] \<and>
           (x = 0 \<or> (\<exists>b<32. x = push_bit b 1))"
proof -
  let ?M = "example_M [] [] []"
  from MutationSampler_new_example [OF assms, of random] obtain ms
    where n: "MutationSampler_new True h random ?M = Inr ms"
      and mu: "mutation ms = Mutation_Add"
      and f: "selected_field ms = FieldInstance_of [] ?M 0 None \<or>
              selected_field ms = FieldInstance_of [] ?M 1 None \<or>
              selected_field ms = FieldInstance_of [] ?M 2 (Some 0)"
    by blast
  from f consider (a) "selected_field ms = FieldInstance_of [] ?M 0 None"
    | (b) "selected_field ms = FieldInstance_of [] ?M 1 None"
    | (c) "selected_field ms = FieldInstance_of [] ?M 2 (Some 0)" by blast
  then show ?thesis
  proof cases
    case a
    from Mutate_switch_Add_a [of "ms_random ms" h] obtain x random'
      where s: "Mutate_switch example_schema Mutation_Add (FieldInstance_of [] ?M 0 None)
                  (ms_random ms) ?M h = Inr (example_M [VInt32 x] [] [], random')"
        and x: "x = 0 \<or> (\<exists>b<32. x = push_bit b 1)" by blast
    have i: "IsInitialized (example_M [VInt32 x] [] [])" by (simp add: example_M_def is_required_def)
    from n mu a s i
    have "Mutate example_schema True random ?M h = Inr (example_M [VInt32 x] [] [], random')"
      by (simp add: Mutate_def)
    moreover have "field_values (example_M [VInt32 x] [] []) 0 = [VInt32 x]"
      by (simp add: example_M_def field_values_def)
    ultimately show ?thesis using i x by blast
  next
    case b
    from Mutate_switch_Add_b [of "ms_random ms" h] obtain s random'
      where s: "Mutate_switch example_schema Mutation_Add (FieldInstance_of [] ?M 1 None)
                  (ms_random ms) ?M h = Inr (example_M [] [VString s] [], random')" by blast
    have ni: "\<not> IsInitialized (example_M [] [VString s] [])"
      by (simp add: example_M_def is_required_def)
    have i: "IsInitialized (example_M [VInt32 0] [VString s] [])" by (simp add: example_M_def is_required_def)
    from n mu b s ni i InitializeMessage_example [of "[VString s]" "[]"]
    have "Mutate example_schema True random ?M h
            = Inr (example_M [VInt32 0] [VString s] [], random')"
      by (simp add: Mutate_def)
    moreover have "field_values (example_M [VInt32 0] [VString s] []) 0 = [VInt32 0]"
      by (simp add: example_M_def field_values_def)
    ultimately show ?thesis using i by blast
  next
    case c
    from Mutate_switch_Add_c [of "ms_random ms" h] obtain y random'
      where s: "Mutate_switch example_schema Mutation_Add (FieldInstance_of [] ?M 2 (Some 0))
                  (ms_random ms) ?M h = Inr (example_M [] [] [VInt32 y], random')" by blast
    have ni: "\<not> IsInitialized (example_M [] [] [VInt32 y])"
      by (simp add: example_M_def is_required_def)
    have i: "IsInitialized (example_M [VInt32 0] [] [VInt32 y])" by (simp add: example_M_def is_required_def)
    from n mu c s ni i InitializeMessage_example [of "[]" "[VInt32 y]"]
    have "Mutate example_schema True random ?M h
            = Inr (example_M [VInt32 0] [] [VInt32 y], random')"
      by (simp add: Mutate_def)
    moreover have "field_values (example_M [VInt32 0] [] [VInt32 y]) 0 = [VInt32 0]"
      by (simp add: example_M_def field_values_def)
    ultimately show ?thesis using i by blast
  qed
qed


text \<open>
  C3.  Whenever \<^verbatim>\<open>InitializeMessage\<close> returns, the message is the repaired one: every
  required field that was unset holds its default value, and every present sub-message of a
  field of message type that was not initialized has been repaired with the depth decreased
  by one.  It returns on every message that is repairable with the given depth.  Mutating
  \<open>M{}\<close>, whose required \<^verbatim>\<open>int32\<close> field \<open>a\<close> is unset, with \<open>keep_initialized\<close> on and
  a positive size hint returns, for every sequence of random draws, an initialized message
  in which \<open>a\<close> is set: to the default \<open>0\<close>, or to a value with exactly one bit set.  The
  second happens when the selected mutation is the \<open>Add\<close> of \<open>a\<close> itself with a mutated
  default, after which nothing is left to repair.
\<close>

theorem InitializeMessage_repairs:
  "(\<forall>message'. InitializeMessage schema True message max_depth = Inr message'
       \<longrightarrow> message' = repaired schema max_depth message) \<and>
   (repairable schema max_depth message
       \<longrightarrow> (\<exists>message'. InitializeMessage schema True message max_depth = Inr message')) \<and>
   (0 < size_increase_hint
       \<longrightarrow> (\<exists>message' random' x.
              Mutate example_schema True random (example_M [] [] []) size_increase_hint
                = Inr (message', random') \<and>
              IsInitialized message' \<and> field_values message' 0 = [VInt32 x] \<and>
              (x = 0 \<or> (\<exists>b<32. x = push_bit b 1))))"
proof (intro conjI)
  show "\<forall>message'. InitializeMessage schema True message max_depth = Inr message'
       \<longrightarrow> message' = repaired schema max_depth message"
    using InitializeMessage_result [of schema max_depth] by blast
  show "repairable schema max_depth message
       \<longrightarrow> (\<exists>message'. InitializeMessage schema True message max_depth = Inr message')"
    using InitializeMessage_returns [of schema max_depth] by blast
  show "0 < size_increase_hint
       \<longrightarrow> (\<exists>message' random' x.
              Mutate example_schema True random (example_M [] [] []) size_increase_hint
                = Inr (message', random') \<and>
              IsInitialized message' \<and> field_values message' 0 = [VInt32 x] \<and>
              (x = 0 \<or> (\<exists>b<32. x = push_bit b 1)))"
    using Mutate_example [of size_increase_hint random] by blast
qed

lemma Mutate_example_repaired:
  "Mutate example_schema True [0, 0, 30000, 1] (example_M [] [] []) 64
     = Inr (example_M [VInt32 0] [VString []] [], [])"
proof -
  have "InitializeMessage example_schema True (example_M [] [VString []] []) 32
          = Inr (example_M [VInt32 0] [VString []] [])"
    using InitializeMessage_example [of "[VString []]" "[]"] by (simp add: kMaxInitializeDepth_def)
  then show ?thesis
    by (simp add: Mutate_def MutationSampler_new_def initial_add_weight_closed
        initial_delete_weight_closed sampler_eval mutation_def selected_field_def
        Mutate_switch_def GetRandomBool_def Apply_def CreateDefaultFieldTransformation_def
        returning_def GetDefault_def Create_def clear_siblings_def set_values_def
        kMaxInitializeDepth_def example_M_def)
qed

theorem InitializeMessage_repairs_witness:
  "repairable example_schema 2 (example_N [VMessage (example_M [] [] [])] [] []) \<and>
   InitializeMessage example_schema True (example_N [VMessage (example_M [] [] [])] [] []) 2
     = Inr (example_N [VMessage (example_M [VInt32 0] [] [])] [] []) \<and>
   InitializeMessage example_schema True (example_N [VMessage (example_M [] [] [])] [] []) 1
     = Inl (AssertionFailed ''max_depth'') \<and>
   repairable example_schema 2 (example_P []) \<and>
   InitializeMessage example_schema True (example_P []) 2
     = Inr (example_P [VMessage (example_M [VInt32 0] [] [])]) \<and>
   (0::nat) < 64 \<and>
   Mutate example_schema True [0, 0, 30000, 1] (example_M [] [] []) 64
     = Inr (example_M [VInt32 0] [VString []] [], []) \<and>
   IsInitialized (example_M [VInt32 0] [VString []] [])"
proof -
  let ?N = "example_N [VMessage (example_M [] [] [])] [] []"
  have r: "repairable example_schema 2 ?N"
    by (simp add: numeral_2_eq_2 example_N_def example_M_def is_required_def)
  from InitializeMessage_repairs [of example_schema ?N 2 64 "[0, 0, 30000, 1]"] r
  obtain message' where i: "InitializeMessage example_schema True ?N 2 = Inr message'"
    and e: "message' = repaired example_schema 2 ?N"
    by blast
  have "repaired example_schema 2 ?N = example_N [VMessage (example_M [VInt32 0] [] [])] [] []"
    by (simp add: numeral_2_eq_2 example_N_def example_M_def repair_field_def repair_nested_def
          is_required_def is_repeated_def GetDefault_def)
  with i e have a: "InitializeMessage example_schema True ?N 2
                      = Inr (example_N [VMessage (example_M [VInt32 0] [] [])] [] [])" by simp
  have b: "InitializeMessage example_schema True ?N 1 = Inl (AssertionFailed ''max_depth'')"
    by (simp add: InitializeMessage_unfold InitializeMessage_field_def InitializeMessage_nested_def
          example_N_def example_eval numeral_3_eq_3)
  from InitializeMessage_repairs [of example_schema ?N 2 64 "[0, 0, 30000, 1]"]
    Mutate_example_repaired
  have c: "IsInitialized (example_M [VInt32 0] [VString []] [])" by auto
  have rp: "repairable example_schema 2 (example_P [])"
    by (simp add: numeral_2_eq_2 example_P_def example_r_def example_schema_def New_def
          example_a_def example_b_def example_c_def is_required_def)
  from InitializeMessage_repairs [of example_schema "example_P []" 2 64 "[]"] rp
  obtain message'' where i': "InitializeMessage example_schema True (example_P []) 2 = Inr message''"
    and e': "message'' = repaired example_schema 2 (example_P [])"
    by blast
  have "repaired example_schema 2 (example_P []) = example_P [VMessage (example_M [VInt32 0] [] [])]"
    by (simp add: numeral_2_eq_2 example_P_def example_r_def example_M_def example_schema_def
          New_def repair_field_def repair_nested_def is_required_def is_repeated_def GetDefault_def)
  with i' e' have p: "InitializeMessage example_schema True (example_P []) 2
                       = Inr (example_P [VMessage (example_M [VInt32 0] [] [])])" by simp
  from r a b c rp p Mutate_example_repaired show ?thesis by simp
qed

theorem InitializeMessage_repairs_counterexample:
  "Mutate example_schema True [0, 30000, 30000, 0, 5] (example_M [] [] []) 64
     = Inr (example_M [VInt32 32] [] [], []) \<and>
   field_values (example_M [VInt32 32] [] []) 0 \<noteq> [VInt32 0]"
  using Mutate_example_created by (simp add: example_M_def field_values_def)

end
